theory Spec2Isabelle
  imports Main
begin

section \<open>C strings\<close>

text \<open>
  A C string is modelled by the list of its characters before the terminating NUL.
  Where the source works on a buffer in place (\<open>remove_desktop_specifiers\<close>), the
  buffer is a list of characters that holds the NUL and whatever follows it, and
  \<open>cstr\<close> reads the C string that starts at its first cell.
\<close>

abbreviation NUL :: char where "NUL \<equiv> CHR 0x00"
abbreviation NL :: char where "NL \<equiv> CHR 0x0A"

definition cstr :: "char list \<Rightarrow> string" where
  "cstr buf = takeWhile (\<lambda>c. c \<noteq> NUL) buf"

section \<open>util.c\<close>

text \<open>\<open>isspace\<close> in the C locale: space, \<open>\t\<close>, \<open>\n\<close>, \<open>\v\<close>, \<open>\f\<close>, \<open>\r\<close>.\<close>

definition isspace :: "char \<Rightarrow> bool" where
  "isspace c = (c = CHR '' '' \<or> c = CHR 0x09 \<or> c = CHR 0x0A \<or> c = CHR 0x0B
                \<or> c = CHR 0x0C \<or> c = CHR 0x0D)"

text \<open>
  \<open>trim\<close>: the first loop advances \<open>str\<close> over leading white space; an empty rest is
  returned as it is; otherwise \<open>end\<close> walks back from the last character while it is
  white space and lies after \<open>str\<close>, and the string is cut after \<open>end\<close>.
\<close>

definition trim :: "string \<Rightarrow> string" where
  "trim s =
     (let str = dropWhile isspace s
      in if str = [] then str else rev (dropWhile isspace (rev str)))"

text \<open>
  \<open>remove_desktop_specifiers\<close> works in place with a read index \<open>src\<close> and a write
  index \<open>dst\<close>. A read or a write outside the buffer is undefined behaviour in C:
  the model returns \<open>None\<close> there.
\<close>

function remove_desktop_specifiers_loop :: "char list \<Rightarrow> nat \<Rightarrow> nat \<Rightarrow> char list option" where
  "remove_desktop_specifiers_loop buf src dst =
     (if length buf \<le> src then None
      else if buf ! src = NUL then
        (if dst < length buf then Some (buf[dst := NUL]) else None)
      else if buf ! src = CHR ''%'' then
        (if length buf \<le> Suc src then None
         else if buf ! Suc src \<noteq> NUL then remove_desktop_specifiers_loop buf (Suc (Suc src)) dst
         else remove_desktop_specifiers_loop buf (Suc src) dst)
      else if dst < length buf then
        remove_desktop_specifiers_loop (buf[dst := buf ! src]) (Suc src) (Suc dst)
      else None)"
  by pat_completeness auto
termination
  by (relation "measure (\<lambda>(buf, src, dst). length buf - src)") auto

declare remove_desktop_specifiers_loop.simps [simp del]

definition remove_desktop_specifiers :: "char list \<Rightarrow> char list option" where
  "remove_desktop_specifiers cmd = remove_desktop_specifiers_loop cmd 0 0"

text \<open>
  The sanitizer as the specification words it: every \<open>%\<close> consumes itself and the one
  character after it, a \<open>%\<close> at the very end is dropped, every other character is
  copied.
\<close>

fun sanitize :: "string \<Rightarrow> string" where
  "sanitize [] = []"
| "sanitize [c] = (if c = CHR ''%'' then [] else [c])"
| "sanitize (c # d # cs) = (if c = CHR ''%'' then sanitize cs else c # sanitize (d # cs))"

section \<open>The C library functions the program calls\<close>

text \<open>
  \<open>fgets (line, n, f)\<close> reads at most \<open>n - 1\<close> characters and stops behind a newline,
  which it keeps. At the end of the file, with nothing read, it returns \<open>NULL\<close>: here
  \<open>None\<close>. The stream is the list of the characters not yet read.
\<close>

fun fgets_chunk :: "nat \<Rightarrow> string \<Rightarrow> string \<times> string" where
  "fgets_chunk 0 s = ([], s)"
| "fgets_chunk (Suc k) [] = ([], [])"
| "fgets_chunk (Suc k) (c # cs) =
     (if c = NL then ([c], cs)
      else case fgets_chunk k cs of (l, r) \<Rightarrow> (c # l, r))"

definition fgets :: "nat \<Rightarrow> string \<Rightarrow> (string \<times> string) option" where
  "fgets n stream =
     (if stream = [] \<or> n < 2 then None else Some (fgets_chunk (n - 1) stream))"

lemma fgets_chunk_length: "length (snd (fgets_chunk k s)) \<le> length s"
  by (induction k s rule: fgets_chunk.induct) (auto split: prod.splits)

lemma fgets_shorter: "fgets n stream = Some (l, r) \<Longrightarrow> length r < length stream"
proof -
  assume a: "fgets n stream = Some (l, r)"
  then obtain c cs k where s: "stream = c # cs" "n - 1 = Suc k"
    by (cases stream; cases "n - 1") (auto simp: fgets_def split: if_splits)
  have "length (snd (fgets_chunk k cs)) \<le> length cs" by (rule fgets_chunk_length)
  with a s show ?thesis
    by (auto simp: fgets_def split: if_splits prod.splits)
qed

definition MAX_LINE :: nat where "MAX_LINE = 1024"

text \<open>
  Both parsers read their file with \<open>while (fgets (line, MAX_LINE, f))\<close>; \<open>file_lines\<close>
  is the list of the buffers that loop sees, in order.
\<close>

function file_lines :: "string \<Rightarrow> string list" where
  "file_lines stream =
     (case fgets MAX_LINE stream of
        None \<Rightarrow> []
      | Some (line, rest) \<Rightarrow> line # file_lines rest)"
  by pat_completeness auto
termination
  by (relation "measure length") (auto dest: fgets_shorter)

declare file_lines.simps [simp del]

definition isdigit :: "char \<Rightarrow> bool" where
  "isdigit c = (48 \<le> (of_char c :: nat) \<and> (of_char c :: nat) \<le> 57)"

text \<open>
  \<open>int\<close> is 32 bits wide and \<open>long\<close> and \<open>size_t\<close> 64: \<open>to_int\<close> and \<open>to_long\<close>
  are the conversions to them, with the wrap-around written out.
\<close>

definition to_int :: "int \<Rightarrow> int" where
  "to_int x = (x + 2 ^ 31) mod 2 ^ 32 - 2 ^ 31"

definition to_long :: "int \<Rightarrow> int" where
  "to_long x = (x + 2 ^ 63) mod 2 ^ 64 - 2 ^ 63"

definition LONG_MAX :: int where "LONG_MAX = 2 ^ 63 - 1"
definition LONG_MIN :: int where "LONG_MIN = - (2 ^ 63)"

text \<open>
  \<open>atoi (s)\<close> is \<open>(int) strtol (s, NULL, 10)\<close>: white space is skipped, one sign is
  read, then the longest run of decimal digits (none gives 0); \<open>strtol\<close> saturates at
  the bounds of \<open>long\<close>.
\<close>

definition digits_value :: "string \<Rightarrow> int" where
  "digits_value ds = foldl (\<lambda>acc c. acc * 10 + (of_char c - 48)) 0 ds"

definition strtol :: "string \<Rightarrow> int" where
  "strtol s =
     (let s1 = dropWhile isspace s;
          neg = (s1 \<noteq> [] \<and> hd s1 = CHR ''-'');
          s2 = (if s1 \<noteq> [] \<and> (hd s1 = CHR ''-'' \<or> hd s1 = CHR ''+'') then tl s1 else s1);
          v = digits_value (takeWhile isdigit s2);
          r = (if neg then - v else v)
      in max LONG_MIN (min LONG_MAX r))"

definition atoi :: "string \<Rightarrow> int" where
  "atoi s = to_int (strtol s)"

text \<open>
  \<open>strtok\<close> with a single delimiter: delimiters in front are skipped; with nothing
  left there is no token; otherwise the token runs to the next delimiter, and the
  scan resumes behind it. The second component is the text a later
  \<open>strtok (NULL, ...)\<close> continues with.
\<close>

definition strtok :: "char \<Rightarrow> string \<Rightarrow> (string \<times> string) option" where
  "strtok delim s =
     (let s1 = dropWhile (\<lambda>c. c = delim) s
      in if s1 = [] then None
         else Some (takeWhile (\<lambda>c. c \<noteq> delim) s1, drop 1 (dropWhile (\<lambda>c. c \<noteq> delim) s1)))"

lemma strtok_shorter: "strtok delim s = Some (t, r) \<Longrightarrow> length r < length s"
proof -
  assume a: "strtok delim s = Some (t, r)"
  let ?s1 = "dropWhile (\<lambda>c. c = delim) s"
  from a have ne: "?s1 \<noteq> []" and r: "r = drop 1 (dropWhile (\<lambda>c. c \<noteq> delim) ?s1)"
    by (auto simp: strtok_def Let_def split: if_splits)
  from ne obtain c cs where cs: "?s1 = c # cs" by (cases ?s1) auto
  then have "c \<noteq> delim" by (metis (mono_tags, lifting) hd_dropWhile list.sel(1) ne)
  then have "length r \<le> length cs"
    using r cs length_dropWhile_le[of "\<lambda>c. c \<noteq> delim" cs] by simp
  moreover have "length ?s1 \<le> length s" by (rule length_dropWhile_le)
  ultimately show ?thesis using cs by simp
qed

text \<open>\<open>strstr (hay, needle) != NULL\<close>: the needle occurs in the hay.\<close>

fun strstr :: "string \<Rightarrow> string \<Rightarrow> bool" where
  "strstr [] needle = (needle = [])"
| "strstr (c # cs) needle = (take (length needle) (c # cs) = needle \<or> strstr cs needle)"

text \<open>
  \<open>strchr (s, c)\<close> followed by \<open>*sep = 0\<close>: the text before the first \<open>c\<close> and the
  text behind it, or \<open>None\<close> where \<open>strchr\<close> returns \<open>NULL\<close>.
\<close>

definition strchr_split :: "char \<Rightarrow> string \<Rightarrow> (string \<times> string) option" where
  "strchr_split c s =
     (case dropWhile (\<lambda>x. x \<noteq> c) s of
        [] \<Rightarrow> None
      | _ # rest \<Rightarrow> Some (takeWhile (\<lambda>x. x \<noteq> c) s, rest))"

text \<open>\<open>strrchr (s, c)\<close>: the rest of \<open>s\<close> from the last \<open>c\<close> on.\<close>

fun strrchr :: "char \<Rightarrow> string \<Rightarrow> string option" where
  "strrchr c [] = None"
| "strrchr c (x # xs) =
     (case strrchr c xs of
        Some r \<Rightarrow> Some r
      | None \<Rightarrow> if x = c then Some (x # xs) else None)"

text \<open>
  \<open>strncpy (dst, src, n)\<close> writes \<open>n\<close> cells: the first \<open>n\<close> characters of \<open>src\<close>,
  padded with NUL.
\<close>

definition strncpy :: "nat \<Rightarrow> string \<Rightarrow> char list" where
  "strncpy n src = take n (cstr src) @ replicate (n - length (cstr src)) NUL"

text \<open>C's division truncates towards zero.\<close>

definition c_div :: "int \<Rightarrow> int \<Rightarrow> int" where
  "c_div a b = (if (a < 0) = (b < 0) then \<bar>a\<bar> div \<bar>b\<bar> else - (\<bar>a\<bar> div \<bar>b\<bar>))"

definition c_mod :: "int \<Rightarrow> int \<Rightarrow> int" where
  "c_mod a b = a - b * c_div a b"

definition bool_int :: "bool \<Rightarrow> int" where
  "bool_int b = (if b then 1 else 0)"

section \<open>config.h and config.c\<close>

definition PATH_MAX :: nat where "PATH_MAX = 4096"
definition MAX_CFG_APPS :: nat where "MAX_CFG_APPS = 128"
definition MAX_CFG_DIRS :: nat where "MAX_CFG_DIRS = 32"

record AppRule =
  name :: string
  allow :: int
  delay_ms :: int

record DirRule =
  path :: string
  allow :: int

text \<open>
  The arrays \<open>apps\<close> and \<open>dirs\<close> with their counters are lists: \<open>app_count\<close> and
  \<open>dir_count\<close> are their lengths, and \<open>cfg->apps[cfg->app_count++]\<close> appends.
\<close>

record Config =
  startup_delay_ms :: int
  delay_ms :: int
  log_level :: int
  log_file :: string
  apps :: "AppRule list"
  dirs :: "DirRule list"

abbreviation app_count :: "Config \<Rightarrow> nat" where "app_count cfg \<equiv> length (apps cfg)"
abbreviation dir_count :: "Config \<Rightarrow> nat" where "dir_count cfg \<equiv> length (dirs cfg)"

definition config_init :: Config where
  "config_init = \<lparr> startup_delay_ms = 0, Config.delay_ms = 200, log_level = 0, log_file = [],
                   apps = [], dirs = [] \<rparr>"

text \<open>
  \<open>sscanf (s, "[%63[^]]", section)\<close> on a line that starts with \<open>[\<close>: up to 63
  characters other than \<open>]\<close>; with none, nothing is assigned and \<open>section\<close> keeps its
  value.
\<close>

definition scan_section :: "string \<Rightarrow> string \<Rightarrow> string" where
  "scan_section s section =
     (let body = take 63 (takeWhile (\<lambda>c. c \<noteq> CHR '']'') (tl s))
      in if body = [] then section else body)"

text \<open>
  \<open>sscanf (s, "%255[^=]=%255[^\n]", key, val) != 2\<close> skips the line: \<open>None\<close>.
  Each of the two fields needs at least one character, and the \<open>=\<close> has to follow the
  key directly.
\<close>

definition scan_key_val :: "string \<Rightarrow> (string \<times> string) option" where
  "scan_key_val s =
     (let key = take 255 (takeWhile (\<lambda>c. c \<noteq> CHR ''='') s);
          rest = drop (length key) s
      in if key = [] then None
         else if rest = [] \<or> hd rest \<noteq> CHR ''='' then None
         else let val = take 255 (takeWhile (\<lambda>c. c \<noteq> NL) (tl rest))
              in if val = [] then None else Some (key, val))"

text \<open>The body of the \<open>strtok\<close> loop, for one trimmed token.\<close>

definition apply_token :: "AppRule \<Rightarrow> string \<Rightarrow> AppRule" where
  "apply_token app_rule t =
     (if take 6 t = ''allow:'' then app_rule\<lparr> AppRule.allow := atoi (drop 6 t) \<rparr>
      else if take 6 t = ''delay:'' then app_rule\<lparr> AppRule.delay_ms := atoi (drop 6 t) \<rparr>
      else app_rule)"

function apply_tokens :: "AppRule \<Rightarrow> string \<Rightarrow> AppRule" where
  "apply_tokens app_rule s =
     (case strtok (CHR '','') s of
        None \<Rightarrow> app_rule
      | Some (token, rest) \<Rightarrow> apply_tokens (apply_token app_rule (trim token)) rest)"
  by pat_completeness auto
termination
  by (relation "measure (\<lambda>(r, s). length s)") (auto dest: strtok_shorter)

declare apply_tokens.simps [simp del]

text \<open>
  The trimmed tokens the \<open>strtok\<close> loop sees, in order, and the test for the
  \<open>allow:\<close> prefix (\<open>strncmp (t, "allow:", 6) == 0\<close>).
\<close>

function token_list :: "string \<Rightarrow> string list" where
  "token_list s =
     (case strtok (CHR '','') s of
        None \<Rightarrow> []
      | Some (token, rest) \<Rightarrow> trim token # token_list rest)"
  by pat_completeness auto
termination
  by (relation "measure length") (auto dest: strtok_shorter)

declare token_list.simps [simp del]

definition is_allow_token :: "string \<Rightarrow> bool" where
  "is_allow_token t = (take 6 t = ''allow:'')"

text \<open>The rule of a key before any token is applied.\<close>

definition default_rule :: "string \<Rightarrow> AppRule" where
  "default_rule k = \<lparr> AppRule.name = take 255 k, AppRule.allow = 1, AppRule.delay_ms = -1 \<rparr>"

text \<open>
  One turn of the loop of \<open>config_load\<close>. The state is the configuration and the
  local \<open>section\<close>.
\<close>

definition config_line :: "Config \<times> string \<Rightarrow> string \<Rightarrow> Config \<times> string" where
  "config_line st line =
     (let cfg = fst st; section = snd st; s = trim (cstr line)
      in if s = [] \<or> hd s = CHR ''#'' then st
         else if hd s = CHR ''['' then (cfg, scan_section s section)
         else case scan_key_val s of
           None \<Rightarrow> st
         | Some (key, val) \<Rightarrow>
             let k = trim key; v = trim val
             in if section = ''general'' then
                  (if k = ''startup_delay'' then (cfg\<lparr> startup_delay_ms := atoi v \<rparr>, section)
                   else if k = ''delay'' then (cfg\<lparr> Config.delay_ms := atoi v \<rparr>, section)
                   else st)
                else if section = ''apps'' \<and> app_count cfg < MAX_CFG_APPS then
                  (cfg\<lparr> apps := apps cfg @
                      [apply_tokens \<lparr> AppRule.name = take 255 k, AppRule.allow = 1,
                                      AppRule.delay_ms = -1 \<rparr> v] \<rparr>, section)
                else if section = ''dirs'' \<and> dir_count cfg < MAX_CFG_DIRS then
                  (cfg\<lparr> dirs := dirs cfg @
                      [\<lparr> DirRule.path = take (PATH_MAX - 1) k,
                         DirRule.allow = bool_int (v = ''block'') \<rparr>] \<rparr>, section)
                else st)"

text \<open>
  \<open>config_load\<close>: the file is \<open>None\<close> where \<open>fopen\<close> fails. The result is the return
  value and the configuration. \<open>config_loop\<close> is the \<open>while\<close> loop over the lines, from
  the empty \<open>section\<close>.
\<close>

definition config_loop :: "Config \<Rightarrow> string list \<Rightarrow> Config \<times> string" where
  "config_loop cfg lines = foldl config_line (cfg, []) lines"

definition config_load :: "Config \<Rightarrow> string option \<Rightarrow> int \<times> Config" where
  "config_load cfg file =
     (case file of
        None \<Rightarrow> (-1, cfg)
      | Some content \<Rightarrow> (0, fst (config_loop cfg (file_lines content))))"

definition config_find_app :: "Config \<Rightarrow> string \<Rightarrow> AppRule option" where
  "config_find_app cfg nm = find (\<lambda>r. AppRule.name r = nm) (apps cfg)"

definition config_dir_allowed :: "Config \<Rightarrow> string \<Rightarrow> int" where
  "config_dir_allowed cfg p =
     (case find (\<lambda>d. DirRule.path d = p) (dirs cfg) of
        None \<Rightarrow> 0
      | Some d \<Rightarrow> DirRule.allow d)"

section \<open>autostart.c: the entry parser\<close>

definition MAX_PATH :: nat where "MAX_PATH = 2048"

record DesktopEntry =
  name :: string
  exec :: string
  tryexec :: string
  icon :: string
  path :: string
  terminal :: int
  hidden :: int
  nodisplay :: int
  valid :: int

text \<open>The entry after \<open>memset (entry, 0, sizeof (struct DesktopEntry))\<close>.\<close>

definition entry_zero :: DesktopEntry where
  "entry_zero = \<lparr> DesktopEntry.name = [], exec = [], tryexec = [], icon = [],
                   DesktopEntry.path = [], terminal = 0, hidden = 0, nodisplay = 0, valid = 0 \<rparr>"

text \<open>The locals of \<open>parse_desktop_file\<close> that live across the lines, and the entry.\<close>

record ParseState =
  in_desktop_entry :: bool
  type_is_application :: bool
  entry :: DesktopEntry

text \<open>
  The chain of \<open>strcmp (key, ...)\<close>. \<open>Inl\<close> is the \<open>return 0\<close> inside the loop, with
  the entry as it is at that moment; \<open>Inr\<close> goes on to the next line. A
  \<open>strncpy\<close> of \<open>n\<close> characters into a field of \<open>n + 1\<close> cells that were zeroed
  leaves the first \<open>n\<close> characters of the value.
\<close>

definition set_field :: "ParseState \<Rightarrow> string \<Rightarrow> string \<Rightarrow> DesktopEntry + ParseState" where
  "set_field st key val =
     (let e = entry st
      in if key = ''Type'' then
           (if val \<noteq> ''Application'' then Inl e
            else Inr (st\<lparr> type_is_application := True \<rparr>))
         else if key = ''Name'' then Inr (st\<lparr> entry := e\<lparr> DesktopEntry.name := take 255 val \<rparr> \<rparr>)
         else if key = ''Exec'' then Inr (st\<lparr> entry := e\<lparr> exec := take 1023 val \<rparr> \<rparr>)
         else if key = ''TryExec'' then Inr (st\<lparr> entry := e\<lparr> tryexec := take 255 val \<rparr> \<rparr>)
         else if key = ''Path'' then Inr (st\<lparr> entry := e\<lparr> DesktopEntry.path := take 1023 val \<rparr> \<rparr>)
         else if key = ''Icon'' then Inr (st\<lparr> entry := e\<lparr> icon := take 255 val \<rparr> \<rparr>)
         else if key = ''Terminal'' then
           Inr (st\<lparr> entry := e\<lparr> terminal := bool_int (val = ''true'') \<rparr> \<rparr>)
         else if key = ''Hidden'' then
           Inr (st\<lparr> entry := e\<lparr> hidden := bool_int (val = ''true'') \<rparr> \<rparr>)
         else if key = ''NoDisplay'' then
           Inr (st\<lparr> entry := e\<lparr> nodisplay := bool_int (val = ''true'') \<rparr> \<rparr>)
         else Inr st)"

text \<open>One turn of the loop of \<open>parse_desktop_file\<close>, on the buffer \<open>fgets\<close> filled.\<close>

definition parse_line :: "ParseState \<Rightarrow> string \<Rightarrow> DesktopEntry + ParseState" where
  "parse_line st line =
     (let trimmed = trim (cstr line)
      in if trimmed = [] \<or> hd trimmed = CHR ''#'' then Inr st
         else if hd trimmed = CHR ''['' then
           Inr (st\<lparr> in_desktop_entry := strstr trimmed ''[Desktop Entry]'' \<rparr>)
         else if \<not> in_desktop_entry st then Inr st
         else case strchr_split (CHR ''='') trimmed of
           None \<Rightarrow> Inr st
         | Some (key, val) \<Rightarrow> set_field st (trim key) (trim val))"

fun parse_lines :: "ParseState \<Rightarrow> string list \<Rightarrow> DesktopEntry + ParseState" where
  "parse_lines st [] = Inr st"
| "parse_lines st (line # rest) =
     (case parse_line st line of
        Inl e \<Rightarrow> Inl e
      | Inr st' \<Rightarrow> parse_lines st' rest)"

definition parse_start :: ParseState where
  "parse_start = \<lparr> in_desktop_entry = False, type_is_application = False, entry = entry_zero \<rparr>"

text \<open>The check of the required fields behind the loop.\<close>

definition validate :: "ParseState \<Rightarrow> DesktopEntry" where
  "validate st =
     (let e = entry st
      in if type_is_application st \<and> 0 < length (DesktopEntry.name e) \<and> 0 < length (exec e)
         then e\<lparr> valid := 1 \<rparr> else e)"

text \<open>
  \<open>parse_desktop_file\<close>: the file is \<open>None\<close> where \<open>fopen\<close> fails. The result is the
  return value, the entry written through the pointer (\<open>None\<close> where the function
  returns before it touches it) and the lines printed to \<open>stderr\<close>.
\<close>

definition parse_desktop_file :: "string option \<Rightarrow> int \<times> DesktopEntry option \<times> string list" where
  "parse_desktop_file file =
     (case file of
        None \<Rightarrow> (0, None, [''Error opening file''])
      | Some content \<Rightarrow>
          (case parse_lines parse_start (file_lines content) of
             Inl e \<Rightarrow> (0, Some e, [])
           | Inr st \<Rightarrow> (valid (validate st), Some (validate st), [])))"

subsection \<open>The lines the parser tells apart\<close>

text \<open>
  The line classes of the loop, named: \<open>line_text\<close> is \<open>trimmed\<close>; a skipped line is
  empty or a comment; a section line starts with \<open>[\<close>, and \<open>bracket_name\<close> is the text
  between that bracket and the first \<open>]\<close>; \<open>key_value\<close> is the trimmed key and value of
  any other line that holds a \<open>=\<close>.
\<close>

definition line_text :: "string \<Rightarrow> string" where
  "line_text line = trim (cstr line)"

definition is_skipped :: "string \<Rightarrow> bool" where
  "is_skipped line = (line_text line = [] \<or> hd (line_text line) = CHR ''#'')"

definition is_section_line :: "string \<Rightarrow> bool" where
  "is_section_line line = (line_text line \<noteq> [] \<and> hd (line_text line) = CHR ''['')"

definition bracket_name :: "string \<Rightarrow> string" where
  "bracket_name line = takeWhile (\<lambda>c. c \<noteq> CHR '']'') (tl (line_text line))"

definition key_value :: "string \<Rightarrow> (string \<times> string) option" where
  "key_value line =
     (if is_skipped line \<or> is_section_line line then None
      else case strchr_split (CHR ''='') (line_text line) of
        None \<Rightarrow> None
      | Some (key, val) \<Rightarrow> Some (trim key, trim val))"

text \<open>
  \<open>section_open b lines\<close>: whether key=value lines count behind \<open>lines\<close>, when they did
  (\<open>b\<close>) or did not before: the last section line decides, by whether its text
  contains \<open>[Desktop Entry]\<close>. \<open>type_seen b lines\<close>: some line of \<open>lines\<close> is a
  \<open>Type=Application\<close> line that counts.
\<close>

fun section_open :: "bool \<Rightarrow> string list \<Rightarrow> bool" where
  "section_open b [] = b"
| "section_open b (line # rest) =
     section_open (if is_section_line line then strstr (line_text line) ''[Desktop Entry]'' else b) rest"

fun type_seen :: "bool \<Rightarrow> string list \<Rightarrow> bool" where
  "type_seen b [] = False"
| "type_seen b (line # rest) =
     ((b \<and> key_value line = Some (''Type'', ''Application''))
      \<or> type_seen (section_open b [line]) rest)"

section \<open>autostart.c: the scanner\<close>

text \<open>
  \<open>check_tryexec\<close> asks the shell with \<open>command -v\<close>; \<open>command_v\<close> is the answer of
  the system the program runs on.
\<close>

definition check_tryexec :: "(string \<Rightarrow> bool) \<Rightarrow> string \<Rightarrow> bool" where
  "check_tryexec command_v t = (if length t = 0 then True else command_v t)"

text \<open>
  The body of the \<open>readdir\<close> loop of \<open>scan_autostart_dir\<close>, for one directory entry:
  its name and the file at that path (\<open>None\<close> where it cannot be opened). The queue is
  a list; \<open>app_queue_add\<close> appends (its \<open>realloc\<close> is taken to succeed).
\<close>

definition scan_entry ::
  "Config \<Rightarrow> (string \<Rightarrow> bool) \<Rightarrow> DesktopEntry list \<Rightarrow> string \<times> string option
     \<Rightarrow> DesktopEntry list" where
  "scan_entry cfg command_v queue dirent =
     (case strrchr (CHR ''.'') (fst dirent) of
        None \<Rightarrow> queue
      | Some ext \<Rightarrow>
          if ext \<noteq> ''.desktop'' then queue
          else case parse_desktop_file (snd dirent) of
            (ret, None, _) \<Rightarrow> queue
          | (ret, Some de, _) \<Rightarrow>
              if ret \<noteq> 0 \<and> valid de \<noteq> 0 then
                if hidden de \<noteq> 0 \<or> nodisplay de \<noteq> 0 then queue
                else
                  let allowed =
                        (case find (\<lambda>r. AppRule.name r = DesktopEntry.name de) (apps cfg) of
                           None \<Rightarrow> 1
                         | Some r \<Rightarrow> AppRule.allow r)
                  in if allowed = 0 then queue
                     else if \<not> check_tryexec command_v (tryexec de) then queue
                     else queue @ [de]
              else queue)"

text \<open>The directory is \<open>None\<close> where \<open>opendir\<close> fails.\<close>

definition scan_autostart_dir ::
  "Config \<Rightarrow> (string \<Rightarrow> bool) \<Rightarrow> DesktopEntry list \<Rightarrow> (string \<times> string option) list option
     \<Rightarrow> DesktopEntry list" where
  "scan_autostart_dir cfg command_v queue dir =
     (case dir of
        None \<Rightarrow> queue
      | Some dirents \<Rightarrow> foldl (scan_entry cfg command_v) queue dirents)"

section \<open>autostart.c: the launch sequencer\<close>

text \<open>
  What the parent process does in \<open>run_command\<close>. \<open>fork\<close> is the system: the value
  the n-th call of \<open>fork ()\<close> returns in the parent, the child's process id or \<open>-1\<close>
  (the child itself never returns from \<open>run_command\<close>: it ends in \<open>execlp\<close> or
  \<open>_exit\<close>). The result is the return value, the child asked for, if any, and the
  number of forks so far; \<open>None\<close> is undefined behaviour in the sanitizer.
\<close>

record Spawn =
  command :: string
  work_dir :: string
  pid :: int

definition run_command ::
  "(nat \<Rightarrow> int) \<Rightarrow> nat \<Rightarrow> string \<Rightarrow> string \<Rightarrow> (int \<times> Spawn option \<times> nat) option" where
  "run_command fork nforks exec_cmd wd =
     (if cstr exec_cmd = [] then Some (0, None, nforks)
      else case remove_desktop_specifiers (strncpy (MAX_PATH - 1) exec_cmd @ [NUL]) of
        None \<Rightarrow> None
      | Some cmd \<Rightarrow>
          let p = fork nforks
          in Some (bool_int (0 < p),
                   Some \<lparr> command = cstr cmd, work_dir = cstr wd, pid = p \<rparr>,
                   Suc nforks))"

text \<open>
  One record for each turn of the loop of \<open>launch_queued_apps\<close>: the value of
  \<open>delay\<close>, the \<open>timespec\<close> handed to \<open>nanosleep\<close>, the queue entry, the child asked
  for, and whether \<open>run_command\<close> returned non-zero.
\<close>

record LaunchStep =
  step_delay :: int
  step_sleep :: "int \<times> int"
  step_entry :: DesktopEntry
  step_spawn :: "Spawn option"
  step_ok :: bool

text \<open>The three numbers printed behind the loop.\<close>

record Report =
  total :: int
  successful :: int
  failed :: int

fun launch_loop ::
  "Config \<Rightarrow> (nat \<Rightarrow> int) \<Rightarrow> nat \<Rightarrow> nat \<Rightarrow> int \<Rightarrow> DesktopEntry list
     \<Rightarrow> (LaunchStep list \<times> int) option" where
  "launch_loop cfg fork i nforks success_count [] = Some ([], success_count)"
| "launch_loop cfg fork i nforks success_count (app # rest) =
     (let delay = (if i \<noteq> 0 then Config.delay_ms cfg else startup_delay_ms cfg)
      in case run_command fork nforks (exec app) (DesktopEntry.path app) of
           None \<Rightarrow> None
         | Some (ret, spawn, nforks') \<Rightarrow>
             (case launch_loop cfg fork (Suc i) nforks'
                     (if ret \<noteq> 0 then to_int (success_count + 1) else success_count) rest of
                None \<Rightarrow> None
              | Some (steps, sc) \<Rightarrow>
                  Some (\<lparr> step_delay = delay,
                           step_sleep = (c_div delay 1000, c_mod delay 1000 * 1000000),
                           step_entry = app, step_spawn = spawn, step_ok = (ret \<noteq> 0) \<rparr> # steps,
                        sc)))"

text \<open>
  \<open>launch_queued_apps\<close>: with an empty queue it prints that there is nothing to
  launch and returns, without a report. \<open>Failed\<close> is
  \<open>app_queue.count - success_count\<close>, computed in \<open>size_t\<close> and printed with \<open>%ld\<close>.
\<close>

definition launch_queued_apps ::
  "Config \<Rightarrow> (nat \<Rightarrow> int) \<Rightarrow> DesktopEntry list \<Rightarrow> (LaunchStep list \<times> Report option) option" where
  "launch_queued_apps cfg fork app_queue =
     (if length app_queue = 0 then Some ([], None)
      else case launch_loop cfg fork 0 0 0 app_queue of
        None \<Rightarrow> None
      | Some (steps, success_count) \<Rightarrow>
          Some (steps,
                Some \<lparr> total = to_long (int (length app_queue)),
                        successful = success_count,
                        failed = to_long (int (length app_queue) mod 2 ^ 64
                                          - success_count mod 2 ^ 64) \<rparr>))"

subsection \<open>Expected outcomes\<close>

text \<open>
  What each spawn comes to, in queue order: an empty command fails without a fork;
  any other command succeeds when the next \<open>fork\<close> returns a process id.
\<close>

fun spawn_results :: "(nat \<Rightarrow> int) \<Rightarrow> nat \<Rightarrow> DesktopEntry list \<Rightarrow> bool list" where
  "spawn_results fork n [] = []"
| "spawn_results fork n (app # rest) =
     (if cstr (exec app) = [] then False # spawn_results fork n rest
      else (0 < fork n) # spawn_results fork (Suc n) rest)"

text \<open>
  The global delay at index \<open>i\<close>, and the values of \<open>delay\<close> the loop sleeps for, in
  order.
\<close>

definition global_delay :: "Config \<Rightarrow> nat \<Rightarrow> int" where
  "global_delay cfg i = (if i = 0 then startup_delay_ms cfg else Config.delay_ms cfg)"

definition launch_delays :: "Config \<Rightarrow> (nat \<Rightarrow> int) \<Rightarrow> DesktopEntry list \<Rightarrow> int list option" where
  "launch_delays cfg fork app_queue =
     (case launch_queued_apps cfg fork app_queue of
        None \<Rightarrow> None
      | Some (steps, report) \<Rightarrow> Some (map step_delay steps))"

section \<open>Sample inputs\<close>

text \<open>A policy file with four rules, and a configuration two rules short of the cap.\<close>

definition four_rules :: string where
  "four_rules = ''[apps]'' @ [NL] @ ''aa=allow:1'' @ [NL] @ ''ab=allow:1'' @ [NL]
     @ ''ac=allow:1'' @ [NL] @ ''ad=allow:1'' @ [NL]"

definition nearly_full :: Config where
  "nearly_full = config_init\<lparr> apps :=
     replicate 126 \<lparr> AppRule.name = ''x'', AppRule.allow = 1, AppRule.delay_ms = -1 \<rparr> \<rparr>"

text \<open>An entry file and what it parses to, and three policy files.\<close>

definition firefox_desktop :: string where
  "firefox_desktop = ''[Desktop Entry]'' @ [NL] @ ''Type=Application'' @ [NL]
      @ ''Name=firefox'' @ [NL] @ ''Exec=firefox %u'' @ [NL]"

definition firefox_entry :: DesktopEntry where
  "firefox_entry = entry_zero\<lparr> DesktopEntry.name := ''firefox'', exec := ''firefox %u'', valid := 1 \<rparr>"

definition deny_firefox :: string where
  "deny_firefox = ''[apps]'' @ [NL] @ ''firefox=allow:0''"

definition allow_firefox :: string where
  "allow_firefox = ''[apps]'' @ [NL] @ ''firefox=allow:1,delay:500''"

definition dirs_policy :: string where
  "dirs_policy = ''[dirs]'' @ [NL] @ ''/etc/xdg/autostart=block'' @ [NL]
      @ ''/usr/share/autostart=allow'' @ [NL]"

text \<open>Entry files: of type Link, with a section name that only contains the marker, and with no section line.\<close>

definition link_desktop :: string where
  "link_desktop = ''[Desktop Entry]'' @ [NL] @ ''Type=Link'' @ [NL]
      @ ''Name=Docs'' @ [NL] @ ''Exec=xdg-open /usr/share/doc'' @ [NL]"

definition nested_desktop :: string where
  "nested_desktop = ''[X-[Desktop Entry]]'' @ [NL] @ ''Type=Application'' @ [NL]
      @ ''Name=a'' @ [NL] @ ''Exec=b'' @ [NL]"

definition backup_desktop :: string where
  "backup_desktop = ''[Backup of [Desktop Entry]]'' @ [NL] @ ''Type=Application'' @ [NL]
      @ ''Name=editor'' @ [NL] @ ''Exec=gedit'' @ [NL]"

definition bare_desktop :: string where
  "bare_desktop = ''Type=Application'' @ [NL] @ ''Name=a'' @ [NL] @ ''Exec=b'' @ [NL]"

text \<open>Systems where every fork succeeds and where the second fails, and two more entries.\<close>

definition fork_ok :: "nat \<Rightarrow> int" where
  "fork_ok n = 4000 + int n"

definition fork_second_fails :: "nat \<Rightarrow> int" where
  "fork_second_fails n = (if n = 1 then -1 else 4000 + int n)"

definition thunderbird_entry :: DesktopEntry where
  "thunderbird_entry = entry_zero\<lparr> DesktopEntry.name := ''thunderbird'', exec := ''thunderbird'',
     valid := 1 \<rparr>"

definition empty_exec_entry :: DesktopEntry where
  "empty_exec_entry = entry_zero\<lparr> DesktopEntry.name := ''nothing'', valid := 1 \<rparr>"

section \<open>Properties of the command sanitizer\<close>

lemma cstr_append_NUL: "NUL \<notin> set s \<Longrightarrow> cstr (s @ NUL # t) = s"
  by (induction s) (auto simp: cstr_def)

lemma rds_loop_end:
  assumes "length out = dst" "length (out @ gap) = src"
  shows "\<exists>tail. remove_desktop_specifiers_loop (out @ gap @ NUL # junk) src dst
           = Some (out @ NUL # tail)"
proof -
  let ?buf = "out @ gap @ NUL # junk"
  have at: "?buf ! src = NUL"
    using assms(2) by (metis append.assoc nth_append_length)
  have lt: "src < length ?buf" "dst < length ?buf"
    using assms by auto
  have "remove_desktop_specifiers_loop ?buf src dst = Some (?buf[dst := NUL])"
    using at lt by (subst remove_desktop_specifiers_loop.simps) simp
  moreover have "\<exists>tail. ?buf[dst := NUL] = out @ NUL # tail"
    using assms(1) by (cases gap) (auto simp: list_update_append)
  ultimately show ?thesis by auto
qed

lemma rds_loop_copy:
  assumes "length out = dst" "length (out @ gap) = src" "c \<noteq> NUL" "c \<noteq> CHR ''%''"
  shows "\<exists>gap'. length gap' = length gap \<and>
           remove_desktop_specifiers_loop (out @ gap @ c # rest) src dst =
           remove_desktop_specifiers_loop ((out @ [c]) @ gap' @ rest) (Suc src) (Suc dst)"
proof -
  let ?buf = "out @ gap @ c # rest"
  have at: "?buf ! src = c"
    using assms(2) by (metis append.assoc nth_append_length)
  have lt: "src < length ?buf" "dst < length ?buf"
    using assms by auto
  have step: "remove_desktop_specifiers_loop ?buf src dst =
      remove_desktop_specifiers_loop (?buf[dst := c]) (Suc src) (Suc dst)"
    using at lt assms(3,4) by (subst remove_desktop_specifiers_loop.simps) simp
  have "\<exists>gap'. length gap' = length gap \<and> ?buf[dst := c] = (out @ [c]) @ gap' @ rest"
  proof (cases gap)
    case Nil
    then show ?thesis using assms(1) by (auto simp: list_update_append)
  next
    case (Cons g gs)
    then have "?buf[dst := c] = (out @ [c]) @ (gs @ [c]) @ rest"
      using assms(1) by (auto simp: list_update_append)
    then show ?thesis using Cons by (intro exI[of _ "gs @ [c]"]) simp
  qed
  then show ?thesis using step by metis
qed

lemma rds_loop_skip2:
  assumes "length (out @ gap) = src" "d \<noteq> NUL"
  shows "remove_desktop_specifiers_loop (out @ gap @ CHR ''%'' # d # rest) src dst =
         remove_desktop_specifiers_loop (out @ (gap @ [CHR ''%'', d]) @ rest) (Suc (Suc src)) dst"
proof -
  let ?buf = "out @ gap @ CHR ''%'' # d # rest"
  have at: "?buf ! src = CHR ''%''"
    using assms(1) by (metis append.assoc nth_append_length)
  have "?buf = (out @ gap @ [CHR ''%'']) @ d # rest" by simp
  moreover have "length (out @ gap @ [CHR ''%'']) = Suc src" using assms(1) by simp
  ultimately have at2: "?buf ! Suc src = d" by (metis nth_append_length)
  have lt: "Suc src < length ?buf" using assms by auto
  show ?thesis
    using at at2 lt assms(2) by (subst remove_desktop_specifiers_loop.simps) simp
qed

lemma rds_loop_skip1:
  assumes "length (out @ gap) = src"
  shows "remove_desktop_specifiers_loop (out @ gap @ CHR ''%'' # NUL # rest) src dst =
         remove_desktop_specifiers_loop (out @ (gap @ [CHR ''%'']) @ NUL # rest) (Suc src) dst"
proof -
  let ?buf = "out @ gap @ CHR ''%'' # NUL # rest"
  have at: "?buf ! src = CHR ''%''"
    using assms(1) by (metis append.assoc nth_append_length)
  have "?buf = (out @ gap @ [CHR ''%'']) @ NUL # rest" by simp
  moreover have "length (out @ gap @ [CHR ''%'']) = Suc src" using assms(1) by simp
  ultimately have at2: "?buf ! Suc src = NUL" by (metis nth_append_length)
  have lt: "Suc src < length ?buf" using assms by auto
  show ?thesis
    using at at2 lt by (subst remove_desktop_specifiers_loop.simps) simp
qed

text \<open>
  The loop invariant: the buffer is the output written so far, a gap of cells already
  read, the part of the command still to read, the NUL and what lies behind it.
\<close>

lemma rds_loop_sanitize:
  assumes "NUL \<notin> set todo" "length out = dst" "length (out @ gap) = src"
  shows "\<exists>tail. remove_desktop_specifiers_loop (out @ gap @ todo @ NUL # junk) src dst =
           Some (out @ sanitize todo @ NUL # tail)"
  using assms
proof (induction todo arbitrary: out gap src dst rule: sanitize.induct)
  case 1
  then show ?case using rds_loop_end[of out dst gap src junk] by simp
next
  case (2 c)
  show ?case
  proof (cases "c = CHR ''%''")
    case True
    have "remove_desktop_specifiers_loop (out @ gap @ [c] @ NUL # junk) src dst =
          remove_desktop_specifiers_loop (out @ (gap @ [CHR ''%'']) @ NUL # junk) (Suc src) dst"
      using rds_loop_skip1[OF 2(3), of junk dst] True by simp
    moreover have "\<exists>tail.
        remove_desktop_specifiers_loop (out @ (gap @ [CHR ''%'']) @ NUL # junk) (Suc src) dst
        = Some (out @ NUL # tail)"
      using rds_loop_end[of out dst "gap @ [CHR ''%'']" "Suc src" junk] 2 by simp
    ultimately show ?thesis using True by simp
  next
    case False
    from 2 have c0: "c \<noteq> NUL" by auto
    obtain gap' where g: "length gap' = length gap"
      "remove_desktop_specifiers_loop (out @ gap @ c # NUL # junk) src dst =
       remove_desktop_specifiers_loop ((out @ [c]) @ gap' @ NUL # junk) (Suc src) (Suc dst)"
      using rds_loop_copy[OF 2(2) 2(3) c0 False, of "NUL # junk"] by blast
    have "\<exists>tail.
        remove_desktop_specifiers_loop ((out @ [c]) @ gap' @ NUL # junk) (Suc src) (Suc dst)
        = Some ((out @ [c]) @ NUL # tail)"
      using rds_loop_end[of "out @ [c]" "Suc dst" gap' "Suc src" junk] 2 g(1) by simp
    then show ?thesis using g(2) False by simp
  qed
next
  case (3 c d cs)
  from 3(3) have c0: "c \<noteq> NUL" and d0: "d \<noteq> NUL" and cs0: "NUL \<notin> set cs" by auto
  show ?case
  proof (cases "c = CHR ''%''")
    case True
    have "remove_desktop_specifiers_loop (out @ gap @ (c # d # cs) @ NUL # junk) src dst =
          remove_desktop_specifiers_loop (out @ (gap @ [CHR ''%'', d]) @ cs @ NUL # junk)
            (Suc (Suc src)) dst"
      using rds_loop_skip2[OF 3(5) d0, of "cs @ NUL # junk" dst] True by simp
    moreover have "\<exists>tail.
        remove_desktop_specifiers_loop (out @ (gap @ [CHR ''%'', d]) @ cs @ NUL # junk)
          (Suc (Suc src)) dst
        = Some (out @ sanitize cs @ NUL # tail)"
      using 3(1)[OF True cs0 3(4), of "gap @ [CHR ''%'', d]" "Suc (Suc src)"] 3(5) by simp
    ultimately show ?thesis using True by simp
  next
    case False
    obtain gap' where g: "length gap' = length gap"
      "remove_desktop_specifiers_loop (out @ gap @ c # (d # cs) @ NUL # junk) src dst =
       remove_desktop_specifiers_loop ((out @ [c]) @ gap' @ (d # cs) @ NUL # junk)
         (Suc src) (Suc dst)"
      using rds_loop_copy[OF 3(4) 3(5) c0 False, of "(d # cs) @ NUL # junk"] by blast
    have "NUL \<notin> set (d # cs)" using d0 cs0 by simp
    then have "\<exists>tail.
        remove_desktop_specifiers_loop ((out @ [c]) @ gap' @ (d # cs) @ NUL # junk)
          (Suc src) (Suc dst)
        = Some ((out @ [c]) @ sanitize (d # cs) @ NUL # tail)"
      using 3(2)[OF False, of "out @ [c]" "Suc dst" gap' "Suc src"] 3(4,5) g(1) by simp
    then show ?thesis using g(2) False by simp
  qed
qed

lemma remove_desktop_specifiers_buffer:
  assumes "NUL \<notin> set s"
  shows "\<exists>tail. remove_desktop_specifiers (s @ NUL # junk) = Some (sanitize s @ NUL # tail)"
  using rds_loop_sanitize[OF assms, of "[]" 0 "[]" 0 junk]
  by (simp add: remove_desktop_specifiers_def)

lemma sanitize_no_NUL: "NUL \<notin> set s \<Longrightarrow> NUL \<notin> set (sanitize s)"
  by (induction s rule: sanitize.induct) auto

lemma sanitize_no_percent: "CHR ''%'' \<notin> set (sanitize s)"
  by (induction s rule: sanitize.induct) auto

lemma sanitize_id: "CHR ''%'' \<notin> set s \<Longrightarrow> sanitize s = s"
  by (induction s rule: sanitize.induct) auto

text \<open>
  Claim C4. For every command string \<open>s\<close> (a C string, so without NUL) held in a buffer
  with anything behind its terminator, \<open>remove_desktop_specifiers\<close> returns, and the
  buffer then holds the string that scanning \<open>s\<close> from the left gives when every
  \<open>%\<close> consumes itself and the single following character whatever it is, a lone
  \<open>%\<close> at the end is dropped, and every other character is copied.
\<close>

theorem remove_desktop_specifiers_sanitize:
  assumes "NUL \<notin> set s"
  shows "\<exists>b. remove_desktop_specifiers (s @ NUL # junk) = Some b \<and> cstr b = sanitize s"
proof -
  obtain tail where t: "remove_desktop_specifiers (s @ NUL # junk) = Some (sanitize s @ NUL # tail)"
    using remove_desktop_specifiers_buffer[OF assms] by blast
  have "cstr (sanitize s @ NUL # tail) = sanitize s"
    using assms by (simp add: cstr_append_NUL sanitize_no_NUL)
  with t show ?thesis by simp
qed

theorem remove_desktop_specifiers_sanitize_witness:
  "(\<exists>b. remove_desktop_specifiers (''firefox %u --new-window'' @ [NUL]) = Some b
        \<and> cstr b = ''firefox  --new-window'')
   \<and> (\<exists>b. remove_desktop_specifiers (''cmd %'' @ [NUL]) = Some b \<and> cstr b = ''cmd '')
   \<and> (\<exists>b. remove_desktop_specifiers (''a %% b %'' @ NUL # ''xyz'') = Some b \<and> cstr b = ''a  b '')"
  using remove_desktop_specifiers_sanitize[of "''firefox %u --new-window''" "[]"]
    remove_desktop_specifiers_sanitize[of "''cmd %''" "[]"]
    remove_desktop_specifiers_sanitize[of "''a %% b %''" "''xyz''"]
  by simp

text \<open>
  Claim C10. For every command string, the string left in the buffer by
  \<open>remove_desktop_specifiers\<close> contains no \<open>%\<close>, and running the function again on
  that buffer returns and leaves the same string: the sanitizer is idempotent.
\<close>

theorem remove_desktop_specifiers_idempotent:
  assumes "NUL \<notin> set s"
  shows "\<exists>b. remove_desktop_specifiers (s @ NUL # junk) = Some b
           \<and> CHR ''%'' \<notin> set (cstr b)
           \<and> (\<exists>b'. remove_desktop_specifiers b = Some b' \<and> cstr b' = cstr b)"
proof -
  obtain tail where t: "remove_desktop_specifiers (s @ NUL # junk) = Some (sanitize s @ NUL # tail)"
    using remove_desktop_specifiers_buffer[OF assms] by blast
  have n: "NUL \<notin> set (sanitize s)"
    using assms by (rule sanitize_no_NUL)
  have c: "cstr (sanitize s @ NUL # tail) = sanitize s"
    using n by (rule cstr_append_NUL)
  obtain tail' where t': "remove_desktop_specifiers (sanitize s @ NUL # tail)
      = Some (sanitize (sanitize s) @ NUL # tail')"
    using remove_desktop_specifiers_buffer[OF n] by blast
  have s2: "sanitize (sanitize s) = sanitize s"
    by (rule sanitize_id) (rule sanitize_no_percent)
  have "cstr (sanitize (sanitize s) @ NUL # tail') = sanitize s"
    using n s2 by (simp add: cstr_append_NUL)
  with t t' c show ?thesis
    by (simp add: sanitize_no_percent)
qed

theorem remove_desktop_specifiers_idempotent_witness:
  "\<exists>b. remove_desktop_specifiers (''vlc %U --loop %'' @ [NUL]) = Some b
        \<and> CHR ''%'' \<notin> set (cstr b)
        \<and> (\<exists>b'. remove_desktop_specifiers b = Some b' \<and> cstr b' = cstr b)"
  using remove_desktop_specifiers_idempotent[of "''vlc %U --loop %''" "[]"]
  by simp

section \<open>The capacity of the policy store\<close>

lemma config_line_app_count:
  "app_count (fst st) \<le> MAX_CFG_APPS \<Longrightarrow> app_count (fst (config_line st l)) \<le> MAX_CFG_APPS"
  by (auto simp: config_line_def Let_def split: option.splits)

lemma config_line_dir_count:
  "dir_count (fst st) \<le> MAX_CFG_DIRS \<Longrightarrow> dir_count (fst (config_line st l)) \<le> MAX_CFG_DIRS"
  by (auto simp: config_line_def Let_def split: option.splits)

lemma config_line_apps_full:
  "app_count (fst st) = MAX_CFG_APPS \<Longrightarrow> apps (fst (config_line st l)) = apps (fst st)"
  by (auto simp: config_line_def Let_def split: option.splits)

lemma config_line_dirs_full:
  "dir_count (fst st) = MAX_CFG_DIRS \<Longrightarrow> dirs (fst (config_line st l)) = dirs (fst st)"
  by (auto simp: config_line_def Let_def split: option.splits)

lemma foldl_config_line_app_count:
  "app_count (fst st) \<le> MAX_CFG_APPS \<Longrightarrow>
   app_count (fst (foldl config_line st ls)) \<le> MAX_CFG_APPS"
proof (induction ls arbitrary: st)
  case Nil
  then show ?case by simp
next
  case (Cons l ls)
  have "app_count (fst (config_line st l)) \<le> MAX_CFG_APPS"
    using Cons.prems by (rule config_line_app_count)
  then show ?case using Cons.IH[of "config_line st l"] by simp
qed

lemma foldl_config_line_dir_count:
  "dir_count (fst st) \<le> MAX_CFG_DIRS \<Longrightarrow>
   dir_count (fst (foldl config_line st ls)) \<le> MAX_CFG_DIRS"
proof (induction ls arbitrary: st)
  case Nil
  then show ?case by simp
next
  case (Cons l ls)
  have "dir_count (fst (config_line st l)) \<le> MAX_CFG_DIRS"
    using Cons.prems by (rule config_line_dir_count)
  then show ?case using Cons.IH[of "config_line st l"] by simp
qed

lemma foldl_config_line_apps_full:
  "app_count (fst st) = MAX_CFG_APPS \<Longrightarrow> apps (fst (foldl config_line st ls)) = apps (fst st)"
proof (induction ls arbitrary: st)
  case Nil
  then show ?case by simp
next
  case (Cons l ls)
  have "apps (fst (config_line st l)) = apps (fst st)"
    using Cons.prems by (rule config_line_apps_full)
  moreover from this have "app_count (fst (config_line st l)) = MAX_CFG_APPS"
    using Cons.prems by simp
  ultimately show ?case using Cons.IH[of "config_line st l"] by simp
qed

lemma foldl_config_line_dirs_full:
  "dir_count (fst st) = MAX_CFG_DIRS \<Longrightarrow> dirs (fst (foldl config_line st ls)) = dirs (fst st)"
proof (induction ls arbitrary: st)
  case Nil
  then show ?case by simp
next
  case (Cons l ls)
  have "dirs (fst (config_line st l)) = dirs (fst st)"
    using Cons.prems by (rule config_line_dirs_full)
  moreover from this have "dir_count (fst (config_line st l)) = MAX_CFG_DIRS"
    using Cons.prems by simp
  ultimately show ?case using Cons.IH[of "config_line st l"] by simp
qed

lemma config_loop_append:
  "config_loop cfg (pre @ post) = foldl config_line (config_loop cfg pre) post"
  by (simp add: config_loop_def)

text \<open>
  Claim C8. Loading a policy file into a configuration within the caps returns 0 and
  leaves at most \<open>MAX_CFG_APPS\<close> app rules and \<open>MAX_CFG_DIRS\<close> dir rules. Once
  the app rules have reached the cap, at whatever line of the file, the rest of the
  file changes none of them, so a name without a rule at that moment has none after
  the load: \<open>config_find_app\<close> returns \<open>NULL\<close> for it. The same holds for the dir
  rules.
\<close>

theorem config_load_capacity:
  assumes "app_count cfg \<le> MAX_CFG_APPS" and "dir_count cfg \<le> MAX_CFG_DIRS"
  shows "fst (config_load cfg (Some content)) = 0
    \<and> app_count (snd (config_load cfg (Some content))) \<le> MAX_CFG_APPS
    \<and> dir_count (snd (config_load cfg (Some content))) \<le> MAX_CFG_DIRS
    \<and> (\<forall>pre post. file_lines content = pre @ post
           \<and> app_count (fst (config_loop cfg pre)) = MAX_CFG_APPS
         \<longrightarrow> apps (snd (config_load cfg (Some content))) = apps (fst (config_loop cfg pre))
           \<and> (\<forall>nm. config_find_app (fst (config_loop cfg pre)) nm = None
                 \<longrightarrow> config_find_app (snd (config_load cfg (Some content))) nm = None))
    \<and> (\<forall>pre post. file_lines content = pre @ post
           \<and> dir_count (fst (config_loop cfg pre)) = MAX_CFG_DIRS
         \<longrightarrow> dirs (snd (config_load cfg (Some content))) = dirs (fst (config_loop cfg pre)))"
proof -
  have load: "snd (config_load cfg (Some content)) = fst (config_loop cfg (file_lines content))"
    by (simp add: config_load_def)
  have r: "fst (config_load cfg (Some content)) = 0"
    by (simp add: config_load_def)
  have a: "app_count (snd (config_load cfg (Some content))) \<le> MAX_CFG_APPS"
    unfolding load config_loop_def using assms(1) by (intro foldl_config_line_app_count) simp
  have d: "dir_count (snd (config_load cfg (Some content))) \<le> MAX_CFG_DIRS"
    unfolding load config_loop_def using assms(2) by (intro foldl_config_line_dir_count) simp
  have fa: "apps (snd (config_load cfg (Some content))) = apps (fst (config_loop cfg pre))"
    if "file_lines content = pre @ post" "app_count (fst (config_loop cfg pre)) = MAX_CFG_APPS"
    for pre post
    unfolding load that(1) config_loop_append using that(2) by (rule foldl_config_line_apps_full)
  have fd: "dirs (snd (config_load cfg (Some content))) = dirs (fst (config_loop cfg pre))"
    if "file_lines content = pre @ post" "dir_count (fst (config_loop cfg pre)) = MAX_CFG_DIRS"
    for pre post
    unfolding load that(1) config_loop_append using that(2) by (rule foldl_config_line_dirs_full)
  have ff: "config_find_app (snd (config_load cfg (Some content))) nm = None"
    if "file_lines content = pre @ post" "app_count (fst (config_loop cfg pre)) = MAX_CFG_APPS"
       "config_find_app (fst (config_loop cfg pre)) nm = None"
    for pre post nm
    using fa[OF that(1,2)] that(3) by (simp add: config_find_app_def)
  show ?thesis
    using r a d fa fd ff by blast
qed

theorem config_load_capacity_witness:
  "fst (config_load nearly_full (Some (four_rules))) = 0
   \<and> app_count (snd (config_load nearly_full (Some (four_rules)))) \<le> MAX_CFG_APPS
   \<and> app_count (snd (config_load nearly_full (Some (four_rules)))) = 128
   \<and> config_find_app (snd (config_load nearly_full (Some (four_rules)))) ''ab''
       = Some \<lparr> AppRule.name = ''ab'', AppRule.allow = 1, AppRule.delay_ms = -1 \<rparr>
   \<and> config_find_app (snd (config_load nearly_full (Some (four_rules)))) ''ac'' = None
   \<and> config_find_app (snd (config_load nearly_full (Some (four_rules)))) ''ad'' = None"
proof -
  let ?content = "four_rules"
  let ?pre = "take 3 (file_lines ?content)"
  let ?post = "drop 3 (file_lines ?content)"
  have h1: "app_count nearly_full \<le> MAX_CFG_APPS" by code_simp
  have h2: "dir_count nearly_full \<le> MAX_CFG_DIRS" by code_simp
  note T = config_load_capacity[OF h1 h2, of ?content]
  have split: "file_lines ?content = ?pre @ ?post" by simp
  have full: "app_count (fst (config_loop nearly_full ?pre)) = MAX_CFG_APPS" by code_simp
  have ab: "config_find_app (fst (config_loop nearly_full ?pre)) ''ab''
       = Some \<lparr> AppRule.name = ''ab'', AppRule.allow = 1, AppRule.delay_ms = -1 \<rparr>" by code_simp
  have ac: "config_find_app (fst (config_loop nearly_full ?pre)) ''ac'' = None" by code_simp
  have ad: "config_find_app (fst (config_loop nearly_full ?pre)) ''ad'' = None" by code_simp
  from T split full have eq: "apps (snd (config_load nearly_full (Some ?content)))
      = apps (fst (config_loop nearly_full ?pre))" by blast
  from T split full ac have ac': "config_find_app (snd (config_load nearly_full (Some ?content))) ''ac'' = None"
    by blast
  from T split full ad have ad': "config_find_app (snd (config_load nearly_full (Some ?content))) ''ad'' = None"
    by blast
  have ab': "config_find_app (snd (config_load nearly_full (Some ?content))) ''ab''
       = Some \<lparr> AppRule.name = ''ab'', AppRule.allow = 1, AppRule.delay_ms = -1 \<rparr>"
    using ab eq by (simp add: config_find_app_def)
  have n: "app_count (snd (config_load nearly_full (Some ?content))) = 128"
    using eq full by (simp add: MAX_CFG_APPS_def)
  from T have "fst (config_load nearly_full (Some ?content)) = 0"
    and "app_count (snd (config_load nearly_full (Some ?content))) \<le> MAX_CFG_APPS" by blast+
  with n ab' ac' ad' show ?thesis by blast
qed

section \<open>Directory rules\<close>

text \<open>
  Claim C1 says that a dir rule is allowed unless its value is \<open>block\<close>. The code
  stores \<open>!strcmp (v, "block")\<close>, which is 1 exactly for the value \<open>block\<close>: for the
  policy below the rule with value \<open>block\<close> gets \<open>allow = 1\<close> and the rule with value
  \<open>allow\<close> gets \<open>allow = 0\<close>, and \<open>config_dir_allowed\<close> returns these flags.
\<close>

theorem config_dirs_block_is_allowed:
  "dirs (snd (config_load config_init (Some dirs_policy)))
     = [\<lparr> DirRule.path = ''/etc/xdg/autostart'', DirRule.allow = 1 \<rparr>,
        \<lparr> DirRule.path = ''/usr/share/autostart'', DirRule.allow = 0 \<rparr>]
   \<and> config_dir_allowed (snd (config_load config_init (Some dirs_policy))) ''/etc/xdg/autostart'' = 1
   \<and> config_dir_allowed (snd (config_load config_init (Some dirs_policy))) ''/usr/share/autostart'' = 0"
  by code_simp

section \<open>The allow token and the policy filter\<close>

lemma apply_tokens_foldl: "apply_tokens r s = foldl apply_token r (token_list s)"
proof (induction r s rule: apply_tokens.induct)
  case (1 app_rule s)
  show ?case
  proof (cases "strtok (CHR '','') s")
    case None
    then show ?thesis
      by (subst apply_tokens.simps, subst token_list.simps) simp
  next
    case (Some p)
    obtain token rest where p: "p = (token, rest)" by (cases p)
    have "apply_tokens (apply_token app_rule (trim token)) rest
        = foldl apply_token (apply_token app_rule (trim token)) (token_list rest)"
      using 1[OF Some[unfolded p] refl] .
    then show ?thesis
      using Some p by (subst apply_tokens.simps, subst token_list.simps) simp
  qed
qed

lemma foldl_apply_token_allow:
  "AppRule.allow (foldl apply_token r ts) =
     (case filter is_allow_token ts of
        [] \<Rightarrow> AppRule.allow r
      | t # ts' \<Rightarrow> atoi (drop 6 (last (t # ts'))))"
proof (induction ts arbitrary: r)
  case Nil
  then show ?case by simp
next
  case (Cons t ts)
  show ?case
  proof (cases "is_allow_token t")
    case True
    then have a: "AppRule.allow (apply_token r t) = atoi (drop 6 t)"
      by (simp add: apply_token_def is_allow_token_def)
    show ?thesis
      using True a Cons.IH[of "apply_token r t"]
      by (simp split: list.splits)
  next
    case False
    then have a: "AppRule.allow (apply_token r t) = AppRule.allow r"
      by (simp add: apply_token_def is_allow_token_def)
    show ?thesis
      using False a Cons.IH[of "apply_token r t"]
      by (simp split: list.splits)
  qed
qed

lemma scan_entry_denied:
  assumes "parse_desktop_file file = (ret, Some de, err)"
    and "config_find_app cfg (DesktopEntry.name de) = Some r"
    and "AppRule.allow r = 0"
  shows "scan_entry cfg command_v queue (d_name, file) = queue"
  using assms
  by (simp add: scan_entry_def config_find_app_def Let_def split: option.splits)

lemma scan_entry_allowed:
  assumes "strrchr (CHR ''.'') d_name = Some ''.desktop''"
    and "parse_desktop_file file = (ret, Some de, err)"
    and "ret \<noteq> 0" "valid de \<noteq> 0" "hidden de = 0" "nodisplay de = 0"
    and "config_find_app cfg (DesktopEntry.name de) = Some r"
    and "AppRule.allow r \<noteq> 0"
    and "check_tryexec command_v (tryexec de)"
  shows "scan_entry cfg command_v queue (d_name, file) = queue @ [de]"
  using assms
  by (simp add: scan_entry_def config_find_app_def Let_def split: option.splits)

lemma deny_firefox_rule:
  "config_find_app (snd (config_load config_init (Some deny_firefox))) ''firefox''
     = Some \<lparr> AppRule.name = ''firefox'', AppRule.allow = 0, AppRule.delay_ms = -1 \<rparr>"
  by code_simp

lemma allow_firefox_rule:
  "config_find_app (snd (config_load config_init (Some allow_firefox))) ''firefox''
     = Some \<lparr> AppRule.name = ''firefox'', AppRule.allow = 1, AppRule.delay_ms = 500 \<rparr>"
  by code_simp

lemma firefox_desktop_parsed:
  "parse_desktop_file (Some firefox_desktop) = (1, Some firefox_entry, [])"
  by code_simp

lemma config_line_apps_rule:
  assumes "scan_key_val (trim (cstr line)) = Some (key, val)"
    and "hd (trim (cstr line)) \<noteq> CHR ''#''" "hd (trim (cstr line)) \<noteq> CHR ''[''"
    and "app_count cfg < MAX_CFG_APPS"
  shows "config_line (cfg, ''apps'') line =
           (cfg\<lparr> apps := apps cfg @ [apply_tokens (default_rule (trim key)) (trim val)] \<rparr>, ''apps'')"
proof -
  have "trim (cstr line) \<noteq> []"
    using assms(1) by (auto simp: scan_key_val_def)
  then show ?thesis
    using assms by (simp add: config_line_def default_rule_def Let_def)
qed

text \<open>
  Claim C3. A token with the prefix \<open>allow:\<close> sets the flag of the rule to \<open>atoi\<close> of
  the text behind the prefix; over the tokens of a value the last such token decides,
  and with none the flag keeps its default 1. A line \<open>key=value\<close> read in section
  \<open>apps\<close> below the cap appends the rule built this way. In the scanner an entry
  whose first rule by name has the flag 0 is not queued, and a valid, visible entry
  whose rule has a flag other than 0 is queued when its \<open>TryExec\<close> check passes. With
  the policy \<open>[apps] firefox=allow:0\<close> every parsed entry named \<open>firefox\<close> is left out of
  the queue.
\<close>

theorem allow_token_numeric:
  "(\<forall>r t. is_allow_token t \<longrightarrow> apply_token r t = r\<lparr> AppRule.allow := atoi (drop 6 t) \<rparr>)
   \<and> (\<forall>r v. AppRule.allow (apply_tokens r v) =
         (case filter is_allow_token (token_list v) of
            [] \<Rightarrow> AppRule.allow r
          | t # ts \<Rightarrow> atoi (drop 6 (last (t # ts)))))
   \<and> (\<forall>cfg line key val.
         scan_key_val (trim (cstr line)) = Some (key, val)
         \<and> hd (trim (cstr line)) \<noteq> CHR ''#'' \<and> hd (trim (cstr line)) \<noteq> CHR ''[''
         \<and> app_count cfg < MAX_CFG_APPS
         \<longrightarrow> config_line (cfg, ''apps'') line =
               (cfg\<lparr> apps := apps cfg @ [apply_tokens (default_rule (trim key)) (trim val)] \<rparr>,
                ''apps''))
   \<and> (\<forall>cfg command_v queue d_name file ret de err r.
         parse_desktop_file file = (ret, Some de, err)
         \<and> config_find_app cfg (DesktopEntry.name de) = Some r \<and> AppRule.allow r = 0
         \<longrightarrow> scan_entry cfg command_v queue (d_name, file) = queue)
   \<and> (\<forall>cfg command_v queue d_name file ret de err r.
         strrchr (CHR ''.'') d_name = Some ''.desktop''
         \<and> parse_desktop_file file = (ret, Some de, err)
         \<and> ret \<noteq> 0 \<and> valid de \<noteq> 0 \<and> hidden de = 0 \<and> nodisplay de = 0
         \<and> config_find_app cfg (DesktopEntry.name de) = Some r \<and> AppRule.allow r \<noteq> 0
         \<and> check_tryexec command_v (tryexec de)
         \<longrightarrow> scan_entry cfg command_v queue (d_name, file) = queue @ [de])
   \<and> (\<forall>command_v queue d_name file ret de err.
         parse_desktop_file file = (ret, Some de, err) \<and> DesktopEntry.name de = ''firefox''
         \<longrightarrow> scan_entry (snd (config_load config_init (Some deny_firefox))) command_v queue
               (d_name, file) = queue)"
proof -
  have a: "\<forall>r t. is_allow_token t \<longrightarrow> apply_token r t = r\<lparr> AppRule.allow := atoi (drop 6 t) \<rparr>"
    by (simp add: apply_token_def is_allow_token_def)
  have b: "\<forall>r v. AppRule.allow (apply_tokens r v) =
         (case filter is_allow_token (token_list v) of
            [] \<Rightarrow> AppRule.allow r
          | t # ts \<Rightarrow> atoi (drop 6 (last (t # ts))))"
    by (simp only: apply_tokens_foldl foldl_apply_token_allow) simp
  have b': "\<forall>cfg line key val.
         scan_key_val (trim (cstr line)) = Some (key, val)
         \<and> hd (trim (cstr line)) \<noteq> CHR ''#'' \<and> hd (trim (cstr line)) \<noteq> CHR ''[''
         \<and> app_count cfg < MAX_CFG_APPS
         \<longrightarrow> config_line (cfg, ''apps'') line =
               (cfg\<lparr> apps := apps cfg @ [apply_tokens (default_rule (trim key)) (trim val)] \<rparr>,
                ''apps'')"
    using config_line_apps_rule by blast
  have c: "\<forall>cfg command_v queue d_name file ret de err r.
         parse_desktop_file file = (ret, Some de, err)
         \<and> config_find_app cfg (DesktopEntry.name de) = Some r \<and> AppRule.allow r = 0
         \<longrightarrow> scan_entry cfg command_v queue (d_name, file) = queue"
    using scan_entry_denied by blast
  have d: "\<forall>cfg command_v queue d_name file ret de err r.
         strrchr (CHR ''.'') d_name = Some ''.desktop''
         \<and> parse_desktop_file file = (ret, Some de, err)
         \<and> ret \<noteq> 0 \<and> valid de \<noteq> 0 \<and> hidden de = 0 \<and> nodisplay de = 0
         \<and> config_find_app cfg (DesktopEntry.name de) = Some r \<and> AppRule.allow r \<noteq> 0
         \<and> check_tryexec command_v (tryexec de)
         \<longrightarrow> scan_entry cfg command_v queue (d_name, file) = queue @ [de]"
    using scan_entry_allowed by blast
  have e: "\<forall>command_v queue d_name file ret de err.
         parse_desktop_file file = (ret, Some de, err) \<and> DesktopEntry.name de = ''firefox''
         \<longrightarrow> scan_entry (snd (config_load config_init (Some deny_firefox))) command_v queue
               (d_name, file) = queue"
  proof (intro allI impI)
    fix command_v :: "string \<Rightarrow> bool" and queue d_name fl ret de err
    assume h: "parse_desktop_file fl = (ret, Some de, err) \<and> DesktopEntry.name de = ''firefox''"
    then have "config_find_app (snd (config_load config_init (Some deny_firefox))) (DesktopEntry.name de)
       = Some \<lparr> AppRule.name = ''firefox'', AppRule.allow = 0, AppRule.delay_ms = -1 \<rparr>"
      using deny_firefox_rule by simp
    then show "scan_entry (snd (config_load config_init (Some deny_firefox))) command_v queue
               (d_name, fl) = queue"
      using h scan_entry_denied by (metis AppRule.select_convs(2))
  qed
  show ?thesis by (intro conjI) (fact a b b' c d e)+
qed


theorem allow_token_numeric_witness:
  "AppRule.allow (apply_token (default_rule ''firefox'') ''allow:0'') = 0
   \<and> AppRule.allow (apply_tokens (default_rule ''firefox'') ''delay:500, allow:7'') = 7
   \<and> AppRule.allow (apply_tokens (default_rule ''firefox'') ''allow:true'') = 0
   \<and> AppRule.allow (apply_tokens (default_rule ''firefox'') ''delay:500'') = 1
   \<and> config_line (config_init, ''apps'') (''firefox=allow:0'' @ [NL])
       = (config_init\<lparr> apps := [\<lparr> AppRule.name = ''firefox'', AppRule.allow = 0,
                                        AppRule.delay_ms = -1 \<rparr>] \<rparr>, ''apps'')
   \<and> scan_entry (snd (config_load config_init (Some deny_firefox))) (\<lambda>t. True) []
        (''firefox.desktop'', Some firefox_desktop) = []
   \<and> scan_entry (snd (config_load config_init (Some allow_firefox))) (\<lambda>t. True) []
        (''firefox.desktop'', Some firefox_desktop) = [firefox_entry]"
proof -
  note T = allow_token_numeric
  have t0: "is_allow_token ''allow:0''" by code_simp
  note A = T[THEN conjunct1, rule_format]
  note B = T[THEN conjunct2, THEN conjunct1]
  note B' = T[THEN conjunct2, THEN conjunct2, THEN conjunct1, rule_format]
  note D = T[THEN conjunct2, THEN conjunct2, THEN conjunct2, THEN conjunct2, THEN conjunct1]
  note E = T[THEN conjunct2, THEN conjunct2, THEN conjunct2, THEN conjunct2, THEN conjunct2,
      rule_format]
  have a0: "atoi (drop 6 ''allow:0'') = 0" by code_simp
  have w1: "AppRule.allow (apply_token (default_rule ''firefox'') ''allow:0'') = 0"
    using A[OF t0, of "default_rule ''firefox''"] a0 by simp
  have tl1: "filter is_allow_token (token_list ''delay:500, allow:7'') = [''allow:7'']" by code_simp
  have tl2: "filter is_allow_token (token_list ''allow:true'') = [''allow:true'']" by code_simp
  have tl3: "filter is_allow_token (token_list ''delay:500'') = []" by code_simp
  have a7: "atoi ''7'' = 7" by code_simp
  have at: "atoi ''true'' = 0" by code_simp
  have d1: "AppRule.allow (default_rule ''firefox'') = 1" by (simp add: default_rule_def)
  have w2: "AppRule.allow (apply_tokens (default_rule ''firefox'') ''delay:500, allow:7'') = 7"
    using B tl1 a7 by simp
  have w3: "AppRule.allow (apply_tokens (default_rule ''firefox'') ''allow:true'') = 0"
    using B tl2 at by simp
  have w4: "AppRule.allow (apply_tokens (default_rule ''firefox'') ''delay:500'') = 1"
    using B tl3 d1 by simp
  have k: "scan_key_val (trim (cstr (''firefox=allow:0'' @ [NL]))) = Some (''firefox'', ''allow:0'')"
    by code_simp
  have k1: "hd (trim (cstr (''firefox=allow:0'' @ [NL]))) \<noteq> CHR ''#''"
    "hd (trim (cstr (''firefox=allow:0'' @ [NL]))) \<noteq> CHR ''[''" by code_simp+
  have k2: "app_count config_init < MAX_CFG_APPS" by code_simp
  have k3: "apply_tokens (default_rule (trim ''firefox'')) (trim ''allow:0'')
      = \<lparr> AppRule.name = ''firefox'', AppRule.allow = 0, AppRule.delay_ms = -1 \<rparr>" by code_simp
  have k4: "apps config_init = []" by (simp add: config_init_def)
  have "config_line (config_init, ''apps'') (''firefox=allow:0'' @ [NL]) =
      (config_init\<lparr> apps := apps config_init
          @ [apply_tokens (default_rule (trim ''firefox'')) (trim ''allow:0'')] \<rparr>, ''apps'')"
    using B'[OF conjI[OF k conjI[OF k1(1) conjI[OF k1(2) k2]]]] .
  then have w5: "config_line (config_init, ''apps'') (''firefox=allow:0'' @ [NL])
       = (config_init\<lparr> apps := [\<lparr> AppRule.name = ''firefox'', AppRule.allow = 0,
                                        AppRule.delay_ms = -1 \<rparr>] \<rparr>, ''apps'')"
    using k3 k4 by simp
  have n: "DesktopEntry.name firefox_entry = ''firefox''" by (simp add: firefox_entry_def)
  have w6: "scan_entry (snd (config_load config_init (Some deny_firefox))) (\<lambda>t. True) []
        (''firefox.desktop'', Some firefox_desktop) = []"
    using E[OF conjI[OF firefox_desktop_parsed n]] .
  have e1: "strrchr (CHR ''.'') ''firefox.desktop'' = Some ''.desktop''" by code_simp
  have e2: "valid firefox_entry \<noteq> 0" "hidden firefox_entry = 0" "nodisplay firefox_entry = 0"
    "check_tryexec (\<lambda>t. True) (tryexec firefox_entry)"
    by (simp_all add: firefox_entry_def entry_zero_def check_tryexec_def)
  have e3: "config_find_app (snd (config_load config_init (Some allow_firefox)))
      (DesktopEntry.name firefox_entry)
     = Some \<lparr> AppRule.name = ''firefox'', AppRule.allow = 1, AppRule.delay_ms = 500 \<rparr>"
    using allow_firefox_rule n by simp
  have e4: "AppRule.allow \<lparr> AppRule.name = ''firefox'', AppRule.allow = 1, AppRule.delay_ms = 500 \<rparr> \<noteq> 0"
    by simp
  have e5: "(1::int) \<noteq> 0" by simp
  have w7: "scan_entry (snd (config_load config_init (Some allow_firefox))) (\<lambda>t. True) []
        (''firefox.desktop'', Some firefox_desktop) = [] @ [firefox_entry]"
    using D[rule_format, OF conjI[OF e1 conjI[OF firefox_desktop_parsed conjI[OF e5 conjI[OF e2(1)
        conjI[OF e2(2) conjI[OF e2(3) conjI[OF e3 conjI[OF e4 e2(4)]]]]]]]]] .
  from w1 w2 w3 w4 w5 w6 w7 show ?thesis by simp
qed

section \<open>The entry parser\<close>

lemma parse_line_section:
  "is_section_line l \<Longrightarrow>
   parse_line st l = Inr (st\<lparr> in_desktop_entry := strstr (line_text l) ''[Desktop Entry]'' \<rparr>)"
  by (auto simp: parse_line_def is_section_line_def line_text_def Let_def)

lemma parse_line_closed:
  "\<not> is_section_line l \<Longrightarrow> \<not> in_desktop_entry st \<Longrightarrow> parse_line st l = Inr st"
  by (auto simp: parse_line_def is_section_line_def line_text_def Let_def)

lemma parse_line_open:
  "\<not> is_section_line l \<Longrightarrow> in_desktop_entry st \<Longrightarrow>
   parse_line st l = (case key_value l of None \<Rightarrow> Inr st | Some (k, v) \<Rightarrow> set_field st k v)"
  by (auto simp: parse_line_def key_value_def is_skipped_def is_section_line_def line_text_def
      Let_def split: option.splits)

lemma set_field_Inr:
  "set_field st k v = Inr st' \<Longrightarrow>
   in_desktop_entry st' = in_desktop_entry st
   \<and> valid (entry st') = valid (entry st)
   \<and> type_is_application st' = (type_is_application st \<or> (k = ''Type'' \<and> v = ''Application''))"
  by (auto simp: set_field_def Let_def split: if_splits)

lemma set_field_Inl:
  "set_field st k v = Inl e \<Longrightarrow> e = entry st \<and> k = ''Type'' \<and> v \<noteq> ''Application''"
  by (auto simp: set_field_def Let_def split: if_splits)

lemma set_field_Type:
  "v \<noteq> ''Application'' \<Longrightarrow> set_field st ''Type'' v = Inl (entry st)"
  by (simp add: set_field_def)

lemma parse_line_Inr:
  assumes "parse_line st l = Inr st'"
  shows "in_desktop_entry st' = section_open (in_desktop_entry st) [l]"
    and "valid (entry st') = valid (entry st)"
    and "type_is_application st' =
      (type_is_application st
       \<or> (in_desktop_entry st \<and> key_value l = Some (''Type'', ''Application'')))"
proof -
  consider (sec) "is_section_line l"
    | (closed) "\<not> is_section_line l" "\<not> in_desktop_entry st"
    | (none) "\<not> is_section_line l" "in_desktop_entry st" "key_value l = None"
    | (kv) k v where "\<not> is_section_line l" "in_desktop_entry st" "key_value l = Some (k, v)"
    by (cases "key_value l") auto
  then have "in_desktop_entry st' = section_open (in_desktop_entry st) [l]
    \<and> valid (entry st') = valid (entry st)
    \<and> type_is_application st' =
      (type_is_application st
       \<or> (in_desktop_entry st \<and> key_value l = Some (''Type'', ''Application'')))"
  proof cases
    case sec
    then have "key_value l = None" by (simp add: key_value_def)
    then show ?thesis using assms sec by (auto simp: parse_line_section)
  next
    case closed
    then show ?thesis using assms by (auto simp: parse_line_closed)
  next
    case none
    then show ?thesis using assms by (auto simp: parse_line_open)
  next
    case kv
    then have "set_field st k v = Inr st'" using assms by (simp add: parse_line_open)
    from set_field_Inr[OF this] kv show ?thesis by auto
  qed
  then show "in_desktop_entry st' = section_open (in_desktop_entry st) [l]"
    and "valid (entry st') = valid (entry st)"
    and "type_is_application st' =
      (type_is_application st
       \<or> (in_desktop_entry st \<and> key_value l = Some (''Type'', ''Application'')))"
    by blast+
qed

lemma parse_line_Inl:
  assumes "parse_line st l = Inl e"
  shows "e = entry st"
proof -
  have o: "in_desktop_entry st" "\<not> is_section_line l"
    using assms parse_line_section[of l st] parse_line_closed[of l st] by auto
  then obtain k v where "key_value l = Some (k, v)" "set_field st k v = Inl e"
    using assms by (cases "key_value l") (auto simp: parse_line_open)
  then show ?thesis using set_field_Inl by blast
qed

lemma section_open_append:
  "section_open b (pre @ post) = section_open (section_open b pre) post"
  by (induction pre arbitrary: b) auto

lemma parse_lines_append:
  "parse_lines st (pre @ post) =
     (case parse_lines st pre of Inl e \<Rightarrow> Inl e | Inr st' \<Rightarrow> parse_lines st' post)"
  by (induction pre arbitrary: st) (auto split: sum.splits)

lemma parse_lines_Inr:
  "parse_lines st ls = Inr st' \<Longrightarrow>
   in_desktop_entry st' = section_open (in_desktop_entry st) ls
   \<and> valid (entry st') = valid (entry st)
   \<and> type_is_application st' = (type_is_application st \<or> type_seen (in_desktop_entry st) ls)"
proof (induction ls arbitrary: st)
  case Nil
  then show ?case by simp
next
  case (Cons l ls)
  from Cons.prems obtain st1 where s1: "parse_line st l = Inr st1" "parse_lines st1 ls = Inr st'"
    by (auto split: sum.splits)
  note a = parse_line_Inr[OF s1(1)]
  note b = Cons.IH[OF s1(2)]
  have c: "section_open (in_desktop_entry st) (l # ls)
      = section_open (section_open (in_desktop_entry st) [l]) ls" by simp
  show ?case
    using a b c by (simp del: section_open.simps)
qed

lemma parse_lines_Inl:
  "parse_lines st ls = Inl e \<Longrightarrow> valid e = valid (entry st)"
proof (induction ls arbitrary: st)
  case Nil
  then show ?case by simp
next
  case (Cons l ls)
  show ?case
  proof (cases "parse_line st l")
    case (Inl e')
    then show ?thesis using Cons.prems parse_line_Inl[OF Inl] by simp
  next
    case (Inr st1)
    then have "parse_lines st1 ls = Inl e" using Cons.prems by simp
    from Cons.IH[OF this] parse_line_Inr(2)[OF Inr] show ?thesis by simp
  qed
qed

lemma type_seen_iff:
  "type_seen b ls \<longleftrightarrow>
     (\<exists>pre l post. ls = pre @ l # post \<and> section_open b pre
        \<and> key_value l = Some (''Type'', ''Application''))"
proof (induction ls arbitrary: b)
  case Nil
  then show ?case by simp
next
  case (Cons a ls)
  let ?b1 = "section_open b [a]"
  have "(\<exists>pre l post. a # ls = pre @ l # post \<and> section_open b pre
        \<and> key_value l = Some (''Type'', ''Application''))
    \<longleftrightarrow> (b \<and> key_value a = Some (''Type'', ''Application''))
       \<or> (\<exists>pre l post. ls = pre @ l # post \<and> section_open ?b1 pre
        \<and> key_value l = Some (''Type'', ''Application''))" (is "?L \<longleftrightarrow> ?A \<or> ?R")
  proof
    assume ?L
    then obtain pre l post where h: "a # ls = pre @ l # post" "section_open b pre"
      "key_value l = Some (''Type'', ''Application'')" by blast
    show "?A \<or> ?R"
    proof (cases pre)
      case Nil
      then show ?thesis using h by simp
    next
      case (Cons p ps)
      then have "ls = ps @ l # post" "p = a" using h(1) by auto
      moreover have "section_open ?b1 ps" using h(2) Cons \<open>p = a\<close> by simp
      ultimately show ?thesis using h(3) by blast
    qed
  next
    assume "?A \<or> ?R"
    then show ?L
    proof
      assume ?A
      then have "a # ls = [] @ a # ls \<and> section_open b []
        \<and> key_value a = Some (''Type'', ''Application'')" by simp
      then show ?L by blast
    next
      assume ?R
      then obtain pre l post where h: "ls = pre @ l # post" "section_open ?b1 pre"
        "key_value l = Some (''Type'', ''Application'')" by blast
      then have "a # ls = (a # pre) @ l # post \<and> section_open b (a # pre)
        \<and> key_value l = Some (''Type'', ''Application'')" by simp
      then show ?L by blast
    qed
  qed
  then show ?case using Cons.IH[of ?b1] by simp
qed

lemma parse_lines_no_section:
  assumes "\<forall>l \<in> set ls. is_section_line l \<longrightarrow> \<not> strstr (line_text l) ''[Desktop Entry]''"
    and "\<not> in_desktop_entry st"
  shows "parse_lines st ls = Inr st"
  using assms
proof (induction ls arbitrary: st)
  case Nil
  then show ?case by simp
next
  case (Cons l ls)
  have "parse_line st l = Inr st"
  proof (cases "is_section_line l")
    case True
    then have "\<not> strstr (line_text l) ''[Desktop Entry]''" using Cons.prems(1) by simp
    then show ?thesis using True Cons.prems(2) by (simp add: parse_line_section)
  next
    case False
    then show ?thesis using Cons.prems(2) by (simp add: parse_line_closed)
  qed
  then show ?case using Cons by simp
qed

lemma parse_lines_type_gate:
  assumes "key_value l = Some (''Type'', v)" "v \<noteq> ''Application''"
    and "section_open (in_desktop_entry st) pre"
  shows "\<exists>e. parse_lines st (pre @ l # post) = Inl e \<and> parse_lines st (pre @ [l]) = Inl e"
proof (cases "parse_lines st pre")
  case (Inl e)
  then show ?thesis by (simp add: parse_lines_append)
next
  case (Inr st1)
  from parse_lines_Inr[OF Inr] assms(3) have o: "in_desktop_entry st1" by simp
  have ns: "\<not> is_section_line l" using assms(1) by (auto simp: key_value_def split: if_splits)
  have "parse_line st1 l = Inl (entry st1)"
    using o ns assms(1,2) by (simp add: parse_line_open set_field_Type)
  then show ?thesis using Inr by (simp add: parse_lines_append)
qed


lemma take_prefix_iff: "take (length n) xs = n \<longleftrightarrow> (\<exists>v. xs = n @ v)"
proof
  assume "take (length n) xs = n"
  then have "xs = n @ drop (length n) xs" by (metis append_take_drop_id)
  then show "\<exists>v. xs = n @ v" ..
next
  assume "\<exists>v. xs = n @ v"
  then show "take (length n) xs = n" by auto
qed

lemma strstr_iff: "strstr h n \<longleftrightarrow> (\<exists>u v. h = u @ n @ v)"
proof (induction h)
  case Nil
  then show ?case by auto
next
  case (Cons c cs)
  have "(\<exists>u v. c # cs = u @ n @ v) \<longleftrightarrow> (\<exists>v. c # cs = n @ v) \<or> (\<exists>u v. cs = u @ n @ v)"
  proof
    assume "\<exists>u v. c # cs = u @ n @ v"
    then obtain u v where h: "c # cs = u @ n @ v" by blast
    show "(\<exists>v. c # cs = n @ v) \<or> (\<exists>u v. cs = u @ n @ v)"
    proof (cases u)
      case Nil
      then show ?thesis using h by auto
    next
      case (Cons a u')
      then have "cs = u' @ n @ v" using h by simp
      then show ?thesis by blast
    qed
  next
    assume "(\<exists>v. c # cs = n @ v) \<or> (\<exists>u v. cs = u @ n @ v)"
    then show "\<exists>u v. c # cs = u @ n @ v"
    proof
      assume "\<exists>v. c # cs = n @ v"
      then obtain v where "c # cs = [] @ n @ v" by auto
      then show ?thesis by blast
    next
      assume "\<exists>u v. cs = u @ n @ v"
      then obtain u v where "c # cs = (c # u) @ n @ v" by auto
      then show ?thesis by blast
    qed
  qed
  then show ?case using Cons.IH take_prefix_iff[of n "c # cs"] by simp
qed

lemma section_open_snoc:
  "section_open b (pre @ [l]) =
     (if is_section_line l then strstr (line_text l) ''[Desktop Entry]'' else section_open b pre)"
  by (simp add: section_open_append)

lemma parse_start_fields:
  "\<not> in_desktop_entry parse_start" "\<not> type_is_application parse_start"
  "entry parse_start = entry_zero" "valid entry_zero = 0"
  by (simp_all add: parse_start_def entry_zero_def)

text \<open>
  Claim C5. Let the parser read, as one of its lines, a \<open>Type\<close> line whose value is
  not \<open>Application\<close>, at a place where key=value lines count (behind a section line
  with the text \<open>[Desktop Entry]\<close>). Then \<open>parse_desktop_file\<close> returns 0 with an
  entry that is not valid, and the result is the one reached on the lines up to and
  including that line: whatever follows it in the file is not processed. The lines
  are the buffers \<open>fgets\<close> fills.
\<close>

theorem type_gate_short_circuits:
  assumes "file_lines content = pre @ line # post"
    and "section_open False pre"
    and "key_value line = Some (''Type'', v)" and "v \<noteq> ''Application''"
  shows "\<exists>e. parse_desktop_file (Some content) = (0, Some e, []) \<and> valid e = 0
           \<and> parse_lines parse_start (pre @ [line]) = Inl e
           \<and> (\<forall>content' post'. file_lines content' = pre @ line # post'
                 \<longrightarrow> parse_desktop_file (Some content') = (0, Some e, []))"
proof -
  have o: "section_open (in_desktop_entry parse_start) pre"
    using assms(2) parse_start_fields(1) by simp
  obtain e where e: "parse_lines parse_start (pre @ line # post) = Inl e"
      "parse_lines parse_start (pre @ [line]) = Inl e"
    using parse_lines_type_gate[OF assms(3,4) o, of post] by blast
  have any: "parse_lines parse_start (pre @ line # post') = Inl e" for post'
    using parse_lines_type_gate[OF assms(3,4) o, of post'] e(2) by auto
  have v: "valid e = 0"
    using parse_lines_Inl[OF e(1)] parse_start_fields(3,4) by simp
  have r: "parse_desktop_file (Some content') = (0, Some e, [])"
    if "file_lines content' = pre @ line # post'" for content' post'
    using that any[of post'] by (simp add: parse_desktop_file_def)
  from r[OF assms(1)] v e(2) r show ?thesis by blast
qed

theorem type_gate_short_circuits_witness:
  "parse_desktop_file (Some link_desktop) = (0, Some entry_zero, [])
   \<and> valid entry_zero = 0"
proof -
  have f: "file_lines link_desktop = [''[Desktop Entry]'' @ [NL]] @ (''Type=Link'' @ [NL])
      # [''Name=Docs'' @ [NL], ''Exec=xdg-open /usr/share/doc'' @ [NL]]" by code_simp
  have s: "section_open False [''[Desktop Entry]'' @ [NL]]" by code_simp
  have k: "key_value (''Type=Link'' @ [NL]) = Some (''Type'', ''Link'')" by code_simp
  have n: "''Link'' \<noteq> ''Application''" by simp
  have p: "parse_lines parse_start ([''[Desktop Entry]'' @ [NL]] @ [''Type=Link'' @ [NL]])
      = Inl entry_zero" by code_simp
  from type_gate_short_circuits[OF f s k n] p show ?thesis by auto
qed

text \<open>
  Claim C6, amended. When the parser reads the file to its end, the entry it returns
  is valid (\<open>valid = 1\<close>, else 0) if and only if a \<open>Type=Application\<close> line was read
  where key=value lines count and the parsed \<open>Name\<close> and \<open>Exec\<close> are not empty. A file in
  which no section line contains the text \<open>[Desktop Entry]\<close> yields the zeroed entry,
  return value 0 and no message, unlike a file that cannot be opened, which leaves
  the entry untouched and prints an error.
\<close>

theorem valid_iff_required_fields:
  "(\<forall>st. parse_lines parse_start (file_lines content) = Inr st \<longrightarrow>
      (\<exists>e. parse_desktop_file (Some content) = (valid e, Some e, [])
         \<and> DesktopEntry.name e = DesktopEntry.name (entry st) \<and> exec e = exec (entry st)
         \<and> (valid e = 0 \<or> valid e = 1)
         \<and> (valid e = 1 \<longleftrightarrow>
              (\<exists>pre l post. file_lines content = pre @ l # post \<and> section_open False pre
                 \<and> key_value l = Some (''Type'', ''Application''))
              \<and> DesktopEntry.name e \<noteq> [] \<and> exec e \<noteq> [])))
   \<and> ((\<forall>l \<in> set (file_lines content).
          is_section_line l \<longrightarrow> \<not> (\<exists>u v. line_text l = u @ ''[Desktop Entry]'' @ v))
        \<longrightarrow> parse_desktop_file (Some content) = (0, Some entry_zero, []))
   \<and> parse_desktop_file None = (0, None, [''Error opening file''])"
proof (intro conjI allI impI)
  fix st
  assume a: "parse_lines parse_start (file_lines content) = Inr st"
  let ?e = "validate st"
  note i = parse_lines_Inr[OF a]
  have v0: "valid (entry st) = 0" using i parse_start_fields by simp
  have t: "type_is_application st \<longleftrightarrow>
      (\<exists>pre l post. file_lines content = pre @ l # post \<and> section_open False pre
          \<and> key_value l = Some (''Type'', ''Application''))"
    using i parse_start_fields type_seen_iff[of False "file_lines content"] by simp
  have 1: "parse_desktop_file (Some content) = (valid ?e, Some ?e, [])"
    using a by (simp add: parse_desktop_file_def)
  have 2: "DesktopEntry.name ?e = DesktopEntry.name (entry st)" "exec ?e = exec (entry st)"
    by (simp_all add: validate_def Let_def)
  have 3: "valid ?e = 0 \<or> valid ?e = 1" using v0 by (simp add: validate_def Let_def)
  have 4: "valid ?e = 1 \<longleftrightarrow>
      (\<exists>pre l post. file_lines content = pre @ l # post \<and> section_open False pre
          \<and> key_value l = Some (''Type'', ''Application''))
      \<and> DesktopEntry.name ?e \<noteq> [] \<and> exec ?e \<noteq> []"
    using v0 t by (auto simp: validate_def Let_def)
  from 1 2 3 4 show "\<exists>e. parse_desktop_file (Some content) = (valid e, Some e, [])
         \<and> DesktopEntry.name e = DesktopEntry.name (entry st) \<and> exec e = exec (entry st)
         \<and> (valid e = 0 \<or> valid e = 1)
         \<and> (valid e = 1 \<longleftrightarrow>
              (\<exists>pre l post. file_lines content = pre @ l # post \<and> section_open False pre
                 \<and> key_value l = Some (''Type'', ''Application''))
              \<and> DesktopEntry.name e \<noteq> [] \<and> exec e \<noteq> [])"
    by blast
next
  assume "\<forall>l \<in> set (file_lines content).
          is_section_line l \<longrightarrow> \<not> (\<exists>u v. line_text l = u @ ''[Desktop Entry]'' @ v)"
  then have "\<forall>l \<in> set (file_lines content).
      is_section_line l \<longrightarrow> \<not> strstr (line_text l) ''[Desktop Entry]''"
    by (simp add: strstr_iff)
  then have "parse_lines parse_start (file_lines content) = Inr parse_start"
    using parse_start_fields(1) by (rule parse_lines_no_section)
  then show "parse_desktop_file (Some content) = (0, Some entry_zero, [])"
    by (simp add: parse_desktop_file_def validate_def parse_start_def entry_zero_def)
next
  show "parse_desktop_file None = (0, None, [''Error opening file''])"
    by (simp add: parse_desktop_file_def)
qed


text \<open>
  Claim C6 as stated fails: the file below has one section, named
  \<open>Backup of [Desktop Entry\<close>, so it lacks a section named \<open>Desktop Entry\<close>, and the
  parser returns a valid entry for it.
\<close>

theorem no_desktop_entry_section_yet_valid:
  "map bracket_name (filter is_section_line (file_lines backup_desktop))
     = [''Backup of [Desktop Entry'']
   \<and> ''Backup of [Desktop Entry'' \<noteq> ''Desktop Entry''
   \<and> parse_desktop_file (Some backup_desktop)
       = (1, Some (entry_zero\<lparr> DesktopEntry.name := ''editor'', exec := ''gedit'', valid := 1 \<rparr>), [])"
proof -
  have a: "map bracket_name (filter is_section_line (file_lines backup_desktop))
     = [''Backup of [Desktop Entry'']" by code_simp
  have b: "''Backup of [Desktop Entry'' \<noteq> ''Desktop Entry''" by simp
  have c: "parse_desktop_file (Some backup_desktop)
       = (1, Some (entry_zero\<lparr> DesktopEntry.name := ''editor'', exec := ''gedit'', valid := 1 \<rparr>), [])"
    by code_simp
  from a b c show ?thesis by blast
qed

theorem valid_iff_required_fields_witness:
  "parse_desktop_file (Some bare_desktop) = (0, Some entry_zero, [])
   \<and> (\<exists>e. parse_desktop_file (Some firefox_desktop) = (valid e, Some e, [])
          \<and> valid e = 1 \<and> DesktopEntry.name e = ''firefox'' \<and> exec e = ''firefox %u'')"
proof -
  have f: "file_lines bare_desktop
      = [''Type=Application'' @ [NL], ''Name=a'' @ [NL], ''Exec=b'' @ [NL]]" by code_simp
  have n: "\<not> is_section_line (''Type=Application'' @ [NL])"
    "\<not> is_section_line (''Name=a'' @ [NL])" "\<not> is_section_line (''Exec=b'' @ [NL])"
    by code_simp+
  have h: "\<forall>l \<in> set (file_lines bare_desktop).
      is_section_line l \<longrightarrow> \<not> (\<exists>u v. line_text l = u @ ''[Desktop Entry]'' @ v)"
    using f n by simp
  have w1: "parse_desktop_file (Some bare_desktop) = (0, Some entry_zero, [])"
    using valid_iff_required_fields[of bare_desktop, THEN conjunct2, THEN conjunct1] h by blast
  let ?st = "\<lparr> in_desktop_entry = True, type_is_application = True,
               entry = entry_zero\<lparr> DesktopEntry.name := ''firefox'', exec := ''firefox %u'' \<rparr> \<rparr>"
  have p: "parse_lines parse_start (file_lines firefox_desktop) = Inr ?st" by code_simp
  have g: "file_lines firefox_desktop = [''[Desktop Entry]'' @ [NL]] @ (''Type=Application'' @ [NL])
      # [''Name=firefox'' @ [NL], ''Exec=firefox %u'' @ [NL]]" by code_simp
  have s: "section_open False [''[Desktop Entry]'' @ [NL]]" by code_simp
  have k: "key_value (''Type=Application'' @ [NL]) = Some (''Type'', ''Application'')" by code_simp
  have ex: "\<exists>pre l post. file_lines firefox_desktop = pre @ l # post \<and> section_open False pre
                 \<and> key_value l = Some (''Type'', ''Application'')"
    using g s k by blast
  obtain e where e: "parse_desktop_file (Some firefox_desktop) = (valid e, Some e, [])"
      "DesktopEntry.name e = DesktopEntry.name (entry ?st)" "exec e = exec (entry ?st)"
      "valid e = 1 \<longleftrightarrow>
         (\<exists>pre l post. file_lines firefox_desktop = pre @ l # post \<and> section_open False pre
            \<and> key_value l = Some (''Type'', ''Application''))
         \<and> DesktopEntry.name e \<noteq> [] \<and> exec e \<noteq> []"
    using valid_iff_required_fields[of firefox_desktop, THEN conjunct1, rule_format, OF p] by blast
  have nm: "DesktopEntry.name e = ''firefox''" "exec e = ''firefox %u''"
    using e(2,3) by (simp_all add: entry_zero_def)
  then have "valid e = 1" using e(4) ex by simp
  with e(1) nm w1 show ?thesis by blast
qed

text \<open>
  Claim C7, amended. Whether key=value lines count is decided by the most recent
  section line alone: they count exactly when its text contains \<open>[Desktop Entry]\<close>
  somewhere (before any section line they do not count). Where they do not count, a
  line that is not a section line leaves the parser's state as it is; where they do,
  it is handled by its key and value.
\<close>

theorem section_gate_by_substring:
  "(\<forall>st ls st'. parse_lines st ls = Inr st'
       \<longrightarrow> in_desktop_entry st' = section_open (in_desktop_entry st) ls)
   \<and> (\<forall>b pre l. section_open b (pre @ [l]) =
         (if is_section_line l then (\<exists>u v. line_text l = u @ ''[Desktop Entry]'' @ v)
          else section_open b pre))
   \<and> (\<forall>st l. \<not> is_section_line l \<and> \<not> in_desktop_entry st \<longrightarrow> parse_line st l = Inr st)
   \<and> (\<forall>st l. \<not> is_section_line l \<and> in_desktop_entry st \<longrightarrow>
         parse_line st l = (case key_value l of None \<Rightarrow> Inr st | Some (k, v) \<Rightarrow> set_field st k v))"
proof -
  have a: "\<forall>st ls st'. parse_lines st ls = Inr st'
       \<longrightarrow> in_desktop_entry st' = section_open (in_desktop_entry st) ls"
    using parse_lines_Inr by blast
  have b: "\<forall>b pre l. section_open b (pre @ [l]) =
         (if is_section_line l then (\<exists>u v. line_text l = u @ ''[Desktop Entry]'' @ v)
          else section_open b pre)"
    by (simp add: section_open_snoc strstr_iff)
  have c: "\<forall>st l. \<not> is_section_line l \<and> \<not> in_desktop_entry st \<longrightarrow> parse_line st l = Inr st"
    using parse_line_closed by blast
  have d: "\<forall>st l. \<not> is_section_line l \<and> in_desktop_entry st \<longrightarrow>
         parse_line st l = (case key_value l of None \<Rightarrow> Inr st | Some (k, v) \<Rightarrow> set_field st k v)"
    using parse_line_open by blast
  show ?thesis by (intro conjI) (fact a b c d)+
qed

theorem section_gate_by_substring_witness:
  "section_open False [''[Desktop Entry]'' @ [NL]]
   \<and> section_open False [''[X-[Desktop Entry]]'' @ [NL]]
   \<and> \<not> section_open True [''[Desktop Entry]'' @ [NL], ''[Other]'' @ [NL]]
   \<and> parse_line parse_start (''Name=a'' @ [NL]) = Inr parse_start
   \<and> parse_line (parse_start\<lparr> in_desktop_entry := True \<rparr>) (''Name=a'' @ [NL])
       = Inr (parse_start\<lparr> in_desktop_entry := True,
                entry := entry_zero\<lparr> DesktopEntry.name := ''a'' \<rparr> \<rparr>)"
proof -
  note T = section_gate_by_substring
  note B = T[THEN conjunct2, THEN conjunct1, rule_format]
  note C = T[THEN conjunct2, THEN conjunct2, THEN conjunct1, rule_format]
  note D = T[THEN conjunct2, THEN conjunct2, THEN conjunct2, rule_format]
  have s1: "is_section_line (''[Desktop Entry]'' @ [NL])"
    "is_section_line (''[X-[Desktop Entry]]'' @ [NL])" "is_section_line (''[Other]'' @ [NL])"
    by code_simp+
  have t1: "line_text (''[Desktop Entry]'' @ [NL]) = [] @ ''[Desktop Entry]'' @ []" by code_simp
  have t2: "line_text (''[X-[Desktop Entry]]'' @ [NL]) = ''[X-'' @ ''[Desktop Entry]'' @ '']''"
    by code_simp
  have t3: "\<not> strstr (line_text (''[Other]'' @ [NL])) ''[Desktop Entry]''" by code_simp
  have e1: "\<exists>u v. line_text (''[Desktop Entry]'' @ [NL]) = u @ ''[Desktop Entry]'' @ v"
    using t1 by (intro exI)
  have e2: "\<exists>u v. line_text (''[X-[Desktop Entry]]'' @ [NL]) = u @ ''[Desktop Entry]'' @ v"
    using t2 by (intro exI)
  have "section_open False ([] @ [''[Desktop Entry]'' @ [NL]])"
    using B[of False "[]" "''[Desktop Entry]'' @ [NL]"] s1(1) e1 by (simp only: if_True)
  then have w1: "section_open False [''[Desktop Entry]'' @ [NL]]"
    by (simp del: section_open.simps)
  have "section_open False ([] @ [''[X-[Desktop Entry]]'' @ [NL]])"
    using B[of False "[]" "''[X-[Desktop Entry]]'' @ [NL]"] s1(2) e2 by (simp only: if_True)
  then have w2: "section_open False [''[X-[Desktop Entry]]'' @ [NL]]"
    by (simp del: section_open.simps)
  have e3: "\<not> (\<exists>u v. line_text (''[Other]'' @ [NL]) = u @ ''[Desktop Entry]'' @ v)"
    using t3 unfolding strstr_iff .
  have "\<not> section_open True ([''[Desktop Entry]'' @ [NL]] @ [''[Other]'' @ [NL]])"
    using B[of True "[''[Desktop Entry]'' @ [NL]]" "''[Other]'' @ [NL]"] s1(3) e3
    by (simp only: if_True simp_thms)
  then have w3: "\<not> section_open True [''[Desktop Entry]'' @ [NL], ''[Other]'' @ [NL]]"
    by (simp del: section_open.simps)
  have n: "\<not> is_section_line (''Name=a'' @ [NL])" by code_simp
  have w4: "parse_line parse_start (''Name=a'' @ [NL]) = Inr parse_start"
    using C[of "''Name=a'' @ [NL]" parse_start] n parse_start_fields(1) by simp
  have k: "key_value (''Name=a'' @ [NL]) = Some (''Name'', ''a'')" by code_simp
  have o: "in_desktop_entry (parse_start\<lparr> in_desktop_entry := True \<rparr>)" by simp
  have w5: "parse_line (parse_start\<lparr> in_desktop_entry := True \<rparr>) (''Name=a'' @ [NL])
       = Inr (parse_start\<lparr> in_desktop_entry := True,
                entry := entry_zero\<lparr> DesktopEntry.name := ''a'' \<rparr> \<rparr>)"
    using D[OF conjI[OF n o]] k by (simp add: set_field_def parse_start_def)
  from w1 w2 w3 w4 w5 show ?thesis by blast
qed

text \<open>
  Claim C7 as stated fails: the section line \<open>[X-[Desktop Entry]]\<close> has the bracketed
  name \<open>X-[Desktop Entry\<close>, not \<open>Desktop Entry\<close>, and the \<open>Name\<close> line behind it is
  parsed; the whole file yields a valid entry.
\<close>

theorem substring_section_enables_keys:
  "is_section_line (''[X-[Desktop Entry]]'' @ [NL])
   \<and> bracket_name (''[X-[Desktop Entry]]'' @ [NL]) = ''X-[Desktop Entry''
   \<and> ''X-[Desktop Entry'' \<noteq> ''Desktop Entry''
   \<and> parse_lines parse_start [''[X-[Desktop Entry]]'' @ [NL], ''Name=a'' @ [NL]]
       = Inr \<lparr> in_desktop_entry = True, type_is_application = False,
               entry = entry_zero\<lparr> DesktopEntry.name := ''a'' \<rparr> \<rparr>
   \<and> parse_desktop_file (Some nested_desktop)
       = (1, Some (entry_zero\<lparr> DesktopEntry.name := ''a'', exec := ''b'', valid := 1 \<rparr>), [])"
proof -
  have a: "is_section_line (''[X-[Desktop Entry]]'' @ [NL])" by code_simp
  have b: "bracket_name (''[X-[Desktop Entry]]'' @ [NL]) = ''X-[Desktop Entry''" by code_simp
  have c: "''X-[Desktop Entry'' \<noteq> ''Desktop Entry''" by simp
  have d: "parse_lines parse_start [''[X-[Desktop Entry]]'' @ [NL], ''Name=a'' @ [NL]]
       = Inr \<lparr> in_desktop_entry = True, type_is_application = False,
               entry = entry_zero\<lparr> DesktopEntry.name := ''a'' \<rparr> \<rparr>" by code_simp
  have e: "parse_desktop_file (Some nested_desktop)
       = (1, Some (entry_zero\<lparr> DesktopEntry.name := ''a'', exec := ''b'', valid := 1 \<rparr>), [])"
    by code_simp
  from a b c d e show ?thesis by blast
qed

section \<open>The launch sequencer\<close>

lemma cstr_no_NUL: "NUL \<notin> set (cstr s)"
  by (auto simp: cstr_def dest: set_takeWhileD)

lemma strncpy_buffer:
  "strncpy n src @ [NUL] = take n (cstr src) @ NUL # replicate (n - length (cstr src)) NUL"
  by (simp add: strncpy_def replicate_append_same)

lemma run_command_result:
  "\<exists>spawn. run_command fork n exec_cmd wd =
     Some (bool_int (cstr exec_cmd \<noteq> [] \<and> 0 < fork n), spawn,
           if cstr exec_cmd = [] then n else Suc n)"
proof (cases "cstr exec_cmd = []")
  case True
  then show ?thesis by (simp add: run_command_def bool_int_def)
next
  case False
  let ?s = "take (MAX_PATH - 1) (cstr exec_cmd)"
  have "NUL \<notin> set ?s" using cstr_no_NUL[of exec_cmd] by (auto dest: in_set_takeD)
  then obtain tail where "remove_desktop_specifiers
      (?s @ NUL # replicate (MAX_PATH - 1 - length (cstr exec_cmd)) NUL)
      = Some (sanitize ?s @ NUL # tail)"
    using remove_desktop_specifiers_buffer by blast
  then show ?thesis
    using False by (simp add: run_command_def strncpy_buffer Let_def)
qed

lemma to_int_id: "- (2 ^ 31) \<le> x \<Longrightarrow> x < 2 ^ 31 \<Longrightarrow> to_int x = x"
  by (simp add: to_int_def)

lemma to_long_id: "- (2 ^ 63) \<le> x \<Longrightarrow> x < 2 ^ 63 \<Longrightarrow> to_long x = x"
  by (simp add: to_long_def)

lemma launch_loop_char:
  "\<exists>steps sc'. launch_loop cfg fork i n sc queue = Some (steps, sc')
     \<and> map step_entry steps = queue
     \<and> map step_delay steps = map (global_delay cfg) [i..<i + length queue]
     \<and> map step_sleep steps
         = map (\<lambda>d. (c_div d 1000, c_mod d 1000 * 1000000)) (map step_delay steps)
     \<and> map step_ok steps = spawn_results fork n queue
     \<and> (0 \<le> sc \<and> sc + int (length queue) < 2 ^ 31
          \<longrightarrow> sc' = sc + int (length (filter id (spawn_results fork n queue))))"
proof (induction queue arbitrary: i n sc)
  case Nil
  then show ?case by simp
next
  case (Cons app rest)
  let ?ok = "cstr (exec app) \<noteq> [] \<and> 0 < fork n"
  let ?n' = "if cstr (exec app) = [] then n else Suc n"
  let ?sc1 = "if bool_int ?ok \<noteq> 0 then to_int (sc + 1) else sc"
  obtain spawn where rc: "run_command fork n (exec app) (DesktopEntry.path app)
      = Some (bool_int ?ok, spawn, ?n')"
    using run_command_result by blast
  obtain steps sc' where ih: "launch_loop cfg fork (Suc i) ?n' ?sc1 rest = Some (steps, sc')"
      "map step_entry steps = rest"
      "map step_delay steps = map (global_delay cfg) [Suc i..<Suc i + length rest]"
      "map step_sleep steps
         = map (\<lambda>d. (c_div d 1000, c_mod d 1000 * 1000000)) (map step_delay steps)"
      "map step_ok steps = spawn_results fork ?n' rest"
      "0 \<le> ?sc1 \<and> ?sc1 + int (length rest) < 2 ^ 31
          \<longrightarrow> sc' = ?sc1 + int (length (filter id (spawn_results fork ?n' rest)))"
    using Cons.IH[of "Suc i" ?n' ?sc1] by blast
  let ?d = "if i \<noteq> 0 then Config.delay_ms cfg else startup_delay_ms cfg"
  let ?step = "\<lparr> step_delay = ?d, step_sleep = (c_div ?d 1000, c_mod ?d 1000 * 1000000),
                 step_entry = app, step_spawn = spawn, step_ok = (bool_int ?ok \<noteq> 0) \<rparr>"
  have run: "launch_loop cfg fork i n sc (app # rest) = Some (?step # steps, sc')"
    using rc ih(1) by (simp add: Let_def)
  have d: "?d = global_delay cfg i" by (simp add: global_delay_def)
  have u: "[i..<i + length (app # rest)] = i # [Suc i..<Suc i + length rest]"
    using upt_conv_Cons[of i "i + length (app # rest)"] by simp
  have okb: "(bool_int ?ok \<noteq> 0) = ?ok" by (simp add: bool_int_def)
  have sr: "spawn_results fork n (app # rest) = ?ok # spawn_results fork ?n' rest"
    by simp
  have cnt: "sc' = sc + int (length (filter id (spawn_results fork n (app # rest))))"
    if b: "0 \<le> sc" "sc + int (length (app # rest)) < 2 ^ 31"
  proof -
    have s1: "?sc1 = (if ?ok then sc + 1 else sc)"
      using b by (simp add: okb to_int_id)
    then have "0 \<le> ?sc1 \<and> ?sc1 + int (length rest) < 2 ^ 31"
      using b by auto
    with ih(6) have "sc' = ?sc1 + int (length (filter id (spawn_results fork ?n' rest)))"
      by blast
    then show ?thesis unfolding sr s1 by simp
  qed
  have f1: "map step_entry (?step # steps) = app # rest" using ih(2) by simp
  have f2: "map step_delay (?step # steps)
      = map (global_delay cfg) [i..<i + length (app # rest)]"
    unfolding u using ih(3) d by simp
  have f3: "map step_sleep (?step # steps)
      = map (\<lambda>d. (c_div d 1000, c_mod d 1000 * 1000000)) (map step_delay (?step # steps))"
    using ih(4) by simp
  have f4: "map step_ok (?step # steps) = spawn_results fork n (app # rest)"
    unfolding sr using ih(5) okb by simp
  have f5: "0 \<le> sc \<and> sc + int (length (app # rest)) < 2 ^ 31
      \<longrightarrow> sc' = sc + int (length (filter id (spawn_results fork n (app # rest))))"
    using cnt by blast
  show ?case
    by (intro exI[of _ "?step # steps"] exI[of _ sc'] conjI) (fact run f1 f2 f3 f4 f5)+
qed

lemma launch_loop_apps:
  "launch_loop (cfg\<lparr> apps := rules \<rparr>) fork i n sc queue = launch_loop cfg fork i n sc queue"
  by (induction queue arbitrary: i n sc) (auto simp: Let_def split: option.splits)

lemma filter_id_Not_length:
  "length (filter id bs) + length (filter Not bs) = length bs"
  by (induction bs) auto

lemma spawn_results_length: "length (spawn_results fork n queue) = length queue"
  by (induction queue arbitrary: n) auto


lemma launch_queued_apps_char:
  "\<exists>steps rep. launch_queued_apps cfg fork queue = Some (steps, rep)
     \<and> map step_entry steps = queue
     \<and> map step_delay steps = map (global_delay cfg) [0..<length queue]
     \<and> map step_sleep steps
         = map (\<lambda>d. (c_div d 1000, c_mod d 1000 * 1000000)) (map step_delay steps)
     \<and> map step_ok steps = spawn_results fork 0 queue
     \<and> (queue = [] \<longrightarrow> rep = None)
     \<and> (queue \<noteq> [] \<and> length queue < 2 ^ 31 \<longrightarrow>
          rep = Some \<lparr> total = int (length queue),
                       successful = int (length (filter id (spawn_results fork 0 queue))),
                       failed = int (length (filter Not (spawn_results fork 0 queue))) \<rparr>)"
proof (cases "queue = []")
  case True
  then show ?thesis by (simp add: launch_queued_apps_def)
next
  case False
  obtain steps sc' where l: "launch_loop cfg fork 0 0 0 queue = Some (steps, sc')"
      "map step_entry steps = queue"
      "map step_delay steps = map (global_delay cfg) [0..<0 + length queue]"
      "map step_sleep steps
         = map (\<lambda>d. (c_div d 1000, c_mod d 1000 * 1000000)) (map step_delay steps)"
      "map step_ok steps = spawn_results fork 0 queue"
      "0 \<le> (0::int) \<and> 0 + int (length queue) < 2 ^ 31
          \<longrightarrow> sc' = 0 + int (length (filter id (spawn_results fork 0 queue)))"
    using launch_loop_char[of cfg fork 0 0 0 queue] by blast
  let ?rep = "\<lparr> total = to_long (int (length queue)), successful = sc',
                failed = to_long (int (length queue) mod 2 ^ 64 - sc' mod 2 ^ 64) \<rparr>"
  have run: "launch_queued_apps cfg fork queue = Some (steps, Some ?rep)"
    using False l(1) by (simp add: launch_queued_apps_def)
  have rep: "?rep = \<lparr> total = int (length queue),
                       successful = int (length (filter id (spawn_results fork 0 queue))),
                       failed = int (length (filter Not (spawn_results fork 0 queue))) \<rparr>"
    if b: "length queue < 2 ^ 31"
  proof -
    let ?s = "int (length (filter id (spawn_results fork 0 queue)))"
    let ?f = "int (length (filter Not (spawn_results fork 0 queue)))"
    have n: "int (length queue) < 2 ^ 31" using b by (simp add: nat_less_numeral_power_cancel_iff)
    have sc: "sc' = ?s" using l(6) n by simp
    have sum: "?s + ?f = int (length queue)"
      using filter_id_Not_length[of "spawn_results fork 0 queue"] spawn_results_length[of fork 0 queue]
      by (metis of_nat_add)
    have "0 \<le> ?s" "0 \<le> ?f" by simp_all
    with sum n have r: "?s < 2 ^ 31" "?f < 2 ^ 31" "int (length queue) - ?s = ?f" by linarith+
    have t: "to_long (int (length queue)) = int (length queue)"
      using n by (intro to_long_id) simp_all
    have m1: "int (length queue) mod 2 ^ 64 = int (length queue)" using n by simp
    have m2: "?s mod 2 ^ 64 = ?s" using r(1) by simp
    have fl: "to_long (int (length queue) mod 2 ^ 64 - ?s mod 2 ^ 64) = ?f"
      unfolding m1 m2 r(3) using r(2) by (intro to_long_id) simp_all
    show ?thesis using sc t fl by simp
  qed
  have l3: "map step_delay steps = map (global_delay cfg) [0..<length queue]"
    using l(3) by simp
  have r1: "queue = [] \<longrightarrow> Some ?rep = None" using False by simp
  have r2: "queue \<noteq> [] \<and> length queue < 2 ^ 31 \<longrightarrow>
          Some ?rep = Some \<lparr> total = int (length queue),
                       successful = int (length (filter id (spawn_results fork 0 queue))),
                       failed = int (length (filter Not (spawn_results fork 0 queue))) \<rparr>"
    using rep by blast
  show ?thesis
    by (intro exI[of _ steps] exI[of _ "Some ?rep"] conjI) (fact run l(2) l3 l(4) l(5) r1 r2)+
qed

lemma launch_delays_global:
  "launch_delays cfg fork queue = Some (map (global_delay cfg) [0..<length queue])"
  using launch_queued_apps_char[of cfg fork queue] by (auto simp: launch_delays_def)

lemma launch_queued_apps_rules:
  "launch_queued_apps (cfg\<lparr> apps := rules \<rparr>) fork queue = launch_queued_apps cfg fork queue"
  by (simp add: launch_queued_apps_def launch_loop_apps)

lemma allow_firefox_delays:
  "startup_delay_ms (snd (config_load config_init (Some allow_firefox))) = 0"
  "Config.delay_ms (snd (config_load config_init (Some allow_firefox))) = 200"
  by code_simp+

text \<open>
  Claim C2, amended. \<open>launch_queued_apps\<close> returns for every queue, with one step for
  each entry, and the delay before the entry at index \<open>i\<close> is \<open>startup_delay_ms\<close> when
  \<open>i = 0\<close> and \<open>delay_ms\<close> otherwise, handed to \<open>nanosleep\<close> as seconds and
  nanoseconds. The app rules have no part in it: with any other list of rules the
  sequencer does the same.
\<close>

theorem launch_delay_is_global:
  "\<exists>steps rep. launch_queued_apps cfg fork queue = Some (steps, rep)
     \<and> length steps = length queue
     \<and> (\<forall>i < length queue.
           step_delay (steps ! i) = (if i = 0 then startup_delay_ms cfg else Config.delay_ms cfg)
           \<and> step_sleep (steps ! i)
               = (c_div (step_delay (steps ! i)) 1000, c_mod (step_delay (steps ! i)) 1000 * 1000000))
     \<and> launch_queued_apps (cfg\<lparr> apps := rules \<rparr>) fork queue = launch_queued_apps cfg fork queue"
proof -
  obtain steps rep where l: "launch_queued_apps cfg fork queue = Some (steps, rep)"
      "map step_delay steps = map (global_delay cfg) [0..<length queue]"
      "map step_sleep steps
         = map (\<lambda>d. (c_div d 1000, c_mod d 1000 * 1000000)) (map step_delay steps)"
    using launch_queued_apps_char[of cfg fork queue] by blast
  have len: "length steps = length queue"
    using arg_cong[OF l(2), of length] by simp
  have d: "step_delay (steps ! i) = (if i = 0 then startup_delay_ms cfg else Config.delay_ms cfg)"
    if "i < length queue" for i
  proof -
    have "map step_delay steps ! i = map (global_delay cfg) [0..<length queue] ! i"
      using arg_cong[OF l(2), of "\<lambda>xs. xs ! i"] .
    then show ?thesis using that len by (simp add: global_delay_def)
  qed
  have sl: "step_sleep (steps ! i)
      = (c_div (step_delay (steps ! i)) 1000, c_mod (step_delay (steps ! i)) 1000 * 1000000)"
    if "i < length queue" for i
  proof -
    have "map step_sleep steps ! i
        = map (\<lambda>d. (c_div d 1000, c_mod d 1000 * 1000000)) (map step_delay steps) ! i"
      using arg_cong[OF l(3), of "\<lambda>xs. xs ! i"] .
    then show ?thesis using that len by simp
  qed
  show ?thesis
    using l(1) len d sl launch_queued_apps_rules
    by (intro exI[of _ steps] exI[of _ rep]) simp
qed

theorem launch_delay_is_global_witness:
  "\<exists>steps rep. launch_queued_apps (snd (config_load config_init (Some allow_firefox))) fork_ok
        [thunderbird_entry, firefox_entry] = Some (steps, rep)
     \<and> length steps = 2
     \<and> step_delay (steps ! 0) = 0 \<and> step_delay (steps ! 1) = 200
     \<and> step_sleep (steps ! 1) = (0, 200000000)"
proof -
  let ?cfg = "snd (config_load config_init (Some allow_firefox))"
  obtain steps rep where l:
      "launch_queued_apps ?cfg fork_ok [thunderbird_entry, firefox_entry] = Some (steps, rep)"
      "length steps = length [thunderbird_entry, firefox_entry]"
      "\<forall>i < length [thunderbird_entry, firefox_entry].
           step_delay (steps ! i) = (if i = 0 then startup_delay_ms ?cfg else Config.delay_ms ?cfg)
           \<and> step_sleep (steps ! i)
               = (c_div (step_delay (steps ! i)) 1000, c_mod (step_delay (steps ! i)) 1000 * 1000000)"
    using launch_delay_is_global[of ?cfg fork_ok "[thunderbird_entry, firefox_entry]"] by blast
  have d0: "step_delay (steps ! 0) = 0" using l(3) allow_firefox_delays by simp
  have d1: "step_delay (steps ! 1) = 200" using l(3) allow_firefox_delays by simp
  have "step_sleep (steps ! 1)
      = (c_div (step_delay (steps ! 1)) 1000, c_mod (step_delay (steps ! 1)) 1000 * 1000000)"
    using l(3) by simp
  then have s1: "step_sleep (steps ! 1) = (0, 200000000)"
    unfolding d1 by (simp add: c_div_def c_mod_def)
  show ?thesis using l(1,2) d0 d1 s1 by (intro exI[of _ steps] exI[of _ rep]) simp
qed

text \<open>
  Claim C2 as stated fails: the policy \<open>[apps] firefox=allow:1,delay:500\<close> stores the
  rule with \<open>delay_ms = 500\<close>, and the entry named \<open>firefox\<close> is delayed by 0 ms at
  index 0 and by the global 200 ms at index 1.
\<close>

theorem delay_override_not_applied:
  "config_find_app (snd (config_load config_init (Some allow_firefox))) ''firefox''
     = Some \<lparr> AppRule.name = ''firefox'', AppRule.allow = 1, AppRule.delay_ms = 500 \<rparr>
   \<and> DesktopEntry.name firefox_entry = ''firefox''
   \<and> launch_delays (snd (config_load config_init (Some allow_firefox))) fork_ok [firefox_entry]
       = Some [0]
   \<and> launch_delays (snd (config_load config_init (Some allow_firefox))) fork_ok
        [thunderbird_entry, firefox_entry] = Some [0, 200]"
proof -
  let ?cfg = "snd (config_load config_init (Some allow_firefox))"
  have n: "DesktopEntry.name firefox_entry = ''firefox''" by (simp add: firefox_entry_def)
  have u1: "[0..<length [firefox_entry]] = [0]" by simp
  have u2: "[0..<length [thunderbird_entry, firefox_entry]] = [0, 1]" by (simp add: upt_rec)
  have a: "launch_delays ?cfg fork_ok [firefox_entry] = Some [0]"
    unfolding launch_delays_global u1 using allow_firefox_delays by (simp add: global_delay_def)
  have b: "launch_delays ?cfg fork_ok [thunderbird_entry, firefox_entry] = Some [0, 200]"
    unfolding launch_delays_global u2 using allow_firefox_delays by (simp add: global_delay_def)
  from allow_firefox_rule n a b show ?thesis by blast
qed

text \<open>
  Claim C9. For a queue of \<open>N\<close> entries (\<open>N\<close> within the range of the \<open>int\<close> counter)
  \<open>launch_queued_apps\<close> returns with one step for each entry, in queue order. A step
  fails exactly when its command is empty or its \<open>fork\<close> fails, and the steps behind
  it are run all the same. The report gives \<open>N\<close> as total, the number of successful
  spawns and the number of failed ones, which add up to \<open>N\<close>. With an empty queue
  there is no report.
\<close>

theorem launch_counts_every_entry:
  assumes "length queue < 2 ^ 31"
  shows "(queue = [] \<longrightarrow> launch_queued_apps cfg fork queue = Some ([], None))
    \<and> (queue \<noteq> [] \<longrightarrow>
         (\<exists>steps rep. launch_queued_apps cfg fork queue = Some (steps, Some rep)
            \<and> map step_entry steps = queue
            \<and> map step_ok steps = spawn_results fork 0 queue
            \<and> total rep = int (length queue)
            \<and> successful rep = int (length (filter id (spawn_results fork 0 queue)))
            \<and> failed rep = int (length (filter Not (spawn_results fork 0 queue)))
            \<and> successful rep + failed rep = int (length queue)))"
proof (intro conjI impI)
  assume "queue = []"
  then show "launch_queued_apps cfg fork queue = Some ([], None)"
    by (simp add: launch_queued_apps_def)
next
  assume ne: "queue \<noteq> []"
  let ?rep = "\<lparr> total = int (length queue),
                successful = int (length (filter id (spawn_results fork 0 queue))),
                failed = int (length (filter Not (spawn_results fork 0 queue))) \<rparr>"
  obtain steps where l: "launch_queued_apps cfg fork queue = Some (steps, Some ?rep)"
      "map step_entry steps = queue" "map step_ok steps = spawn_results fork 0 queue"
    using launch_queued_apps_char[of cfg fork queue] ne assms by blast
  have sum: "successful ?rep + failed ?rep = int (length queue)"
    using filter_id_Not_length[of "spawn_results fork 0 queue"] spawn_results_length[of fork 0 queue]
    by (simp del: of_nat_add add: of_nat_add[symmetric])
  show "\<exists>steps rep. launch_queued_apps cfg fork queue = Some (steps, Some rep)
            \<and> map step_entry steps = queue
            \<and> map step_ok steps = spawn_results fork 0 queue
            \<and> total rep = int (length queue)
            \<and> successful rep = int (length (filter id (spawn_results fork 0 queue)))
            \<and> failed rep = int (length (filter Not (spawn_results fork 0 queue)))
            \<and> successful rep + failed rep = int (length queue)"
    using l sum by (intro exI[of _ steps] exI[of _ ?rep]) simp
qed

theorem launch_counts_every_entry_witness:
  "\<exists>steps rep. launch_queued_apps config_init fork_second_fails
        [firefox_entry, thunderbird_entry, empty_exec_entry, firefox_entry] = Some (steps, Some rep)
     \<and> map step_entry steps = [firefox_entry, thunderbird_entry, empty_exec_entry, firefox_entry]
     \<and> map step_ok steps = [True, False, False, True]
     \<and> total rep = 4 \<and> successful rep = 2 \<and> failed rep = 2"
proof -
  let ?q = "[firefox_entry, thunderbird_entry, empty_exec_entry, firefox_entry]"
  have h: "length ?q < 2 ^ 31" by simp
  have ne: "?q \<noteq> []" by simp
  have sr: "spawn_results fork_second_fails 0 ?q = [True, False, False, True]" by code_simp
  note T = launch_counts_every_entry[OF h, of config_init fork_second_fails,
      THEN conjunct2, THEN mp, OF ne]
  from T obtain steps rep where l:
      "launch_queued_apps config_init fork_second_fails ?q = Some (steps, Some rep)"
      "map step_entry steps = ?q"
      "map step_ok steps = spawn_results fork_second_fails 0 ?q"
      "total rep = int (length ?q)"
      "successful rep = int (length (filter id (spawn_results fork_second_fails 0 ?q)))"
      "failed rep = int (length (filter Not (spawn_results fork_second_fails 0 ?q)))"
    by (elim exE conjE) (rule that)
  have "total rep = 4" "successful rep = 2" "failed rep = 2"
    using l(4,5,6) unfolding sr by simp_all
  then show ?thesis
    using l(1,2,3) unfolding sr by (intro exI[of _ steps] exI[of _ rep]) simp
qed

end
